theory Spec2Isabelle
  imports Main "HOL-Library.Word"
begin

section \<open>Data model of \<open>nod.hpp\<close>\<close>

text \<open>
  A slot is a \<open>std::function\<close>: either empty (\<open>None\<close>) or a stored callable
  (\<open>Some f\<close>). The test \<open>if( slot )\<close> of the source is the test \<open>slot \<noteq> None\<close>.

  A signal object owns its slot vector, its embedded disconnector (whose \<open>_ptr\<close> is
  \<open>nullptr\<close> until the first \<open>connect\<close>) and a \<open>shared_ptr\<close> to that disconnector.
  The shared pointer is modelled by the identity of its control block (\<open>None\<close> is
  \<open>nullptr\<close>). Objects live in an explicit heap: signal objects by address, control blocks
  by identity, each with its strong reference count and the address of the signal whose
  \<open>_disconnector\<close> member it points at. Slot indices are \<open>std::size_t\<close>; they are
  positions of a vector and are modelled as \<open>nat\<close>.
\<close>

datatype error = Assertion_failed | Dangling_access | Never_returns

type_synonym 'f slot_type = "'f option"

record 'f signal_type =
  slots :: "'f slot_type list"
  disconnector_ptr :: "nat option"
  shared_disconnector :: "nat option"

record control_block =
  strong :: nat
  pointee :: nat

record 'f heap =
  signals :: "nat \<rightharpoonup> 'f signal_type"
  blocks :: "control_block list"

record connection =
  weak_disconnector :: "nat option"
  index :: nat

record scoped_connection =
  scoped_conn :: connection


definition empty_heap :: "'f heap" where
  "empty_heap = \<lparr>signals = Map.empty, blocks = []\<rparr>"

text \<open>\<open>signal_type() = default\<close>: no slots, a no-op disconnector, a null shared pointer.\<close>

definition default_signal :: "'f signal_type" where
  "default_signal = \<lparr>slots = [], disconnector_ptr = None, shared_disconnector = None\<rparr>"

definition signal_construct :: "nat \<Rightarrow> 'f heap \<Rightarrow> 'f heap" where
  "signal_construct a h = h\<lparr>signals := (signals h)(a \<mapsto> default_signal)\<rparr>"

text \<open>\<open>connection()\<close>: an empty weak pointer and a value-initialised index.\<close>

definition default_connection :: connection where
  "default_connection = \<lparr>weak_disconnector = None, index = 0\<rparr>"

section \<open>Shared and weak pointers\<close>

text \<open>
  \<open>weak_ptr::expired()\<close> holds for an empty weak pointer and for one whose control block
  has no strong owner left. \<open>weak_ptr::lock()\<close> yields a strong reference (the count goes up
  by one) unless the pointer has expired; dropping that reference takes the count down again.
\<close>

definition expired :: "nat option \<Rightarrow> 'f heap \<Rightarrow> bool" where
  "expired wp h =
     (case wp of
        None \<Rightarrow> True
      | Some cb \<Rightarrow> \<not> (cb < length (blocks h) \<and> 0 < strong (blocks h ! cb)))"

definition acquire :: "nat \<Rightarrow> 'f heap \<Rightarrow> 'f heap" where
  "acquire cb h =
     h\<lparr>blocks := (blocks h)[cb := (blocks h ! cb)\<lparr>strong := Suc (strong (blocks h ! cb))\<rparr>]\<rparr>"

definition release :: "nat \<Rightarrow> 'f heap \<Rightarrow> 'f heap" where
  "release cb h =
     h\<lparr>blocks := (blocks h)[cb := (blocks h ! cb)\<lparr>strong := strong (blocks h ! cb) - 1\<rparr>]\<rparr>"

definition weak_lock :: "nat option \<Rightarrow> 'f heap \<Rightarrow> (nat \<times> 'f heap) option" where
  "weak_lock wp h =
     (case wp of
        None \<Rightarrow> None
      | Some cb \<Rightarrow> if expired wp h then None else Some (cb, acquire cb h))"

section \<open>Connection\<close>

text \<open>
  The move constructor and the move assignment operator both take the weak pointer out of
  \<open>other\<close> (a moved-from \<open>weak_ptr\<close> is empty) and copy its index; \<open>other\<close> keeps its
  index. Each returns the target first and the moved-from source second. The assignment
  overwrites the target's previous weak pointer without disconnecting anything.
\<close>

definition move_construct :: "connection \<Rightarrow> connection \<times> connection" where
  "move_construct other =
     (\<lparr>weak_disconnector = weak_disconnector other, index = index other\<rparr>,
      other\<lparr>weak_disconnector := None\<rparr>)"

definition move_assign :: "connection \<Rightarrow> connection \<Rightarrow> connection \<times> connection" where
  "move_assign this other =
     (this\<lparr>weak_disconnector := weak_disconnector other, index := index other\<rparr>,
      other\<lparr>weak_disconnector := None\<rparr>)"

definition connected :: "connection \<Rightarrow> 'f heap \<Rightarrow> bool" where
  "connected c h = (\<not> expired (weak_disconnector c) h)"

section \<open>Signal\<close>

text \<open>
  \<open>while( _slots.size()>0 && !_slots.back() ) _slots.pop_back();\<close>
\<close>

function trim_tail :: "'f slot_type list \<Rightarrow> 'f slot_type list" where
  "trim_tail xs = (if 0 < length xs \<and> last xs = None then trim_tail (butlast xs) else xs)"
  by pat_completeness auto
termination
  by (relation "measure length") auto

declare trim_tail.simps [simp del]

text \<open>
  \<open>signal_type::disconnect(index)\<close>: the assertion, the assignment of an empty slot, the
  trimming loop. A failed assertion is the error \<open>Assertion_failed\<close>.
\<close>

definition signal_disconnect :: "nat \<Rightarrow> 'f signal_type \<Rightarrow> error + 'f signal_type" where
  "signal_disconnect i sg =
     (if length (slots sg) > i
      then Inr (sg\<lparr>slots := trim_tail ((slots sg)[i := None])\<rparr>)
      else Inl Assertion_failed)"

text \<open>
  \<open>signal_type::connect(slot)\<close> on the signal object at address \<open>this\<close>. The slot is
  whatever \<open>std::function\<close> value the argument converts to, an empty one included. A call
  on an address that holds no live signal is \<open>Dangling_access\<close>.
\<close>

definition connect :: "nat \<Rightarrow> 'f slot_type \<Rightarrow> 'f heap \<Rightarrow> error + (connection \<times> 'f heap)" where
  "connect this slot h =
     (case signals h this of
        None \<Rightarrow> Inl Dangling_access
      | Some sg \<Rightarrow>
          let sl = slots sg @ [slot];
              i = length sl - 1
          in (case shared_disconnector sg of
                None \<Rightarrow>
                  let cb = length (blocks h);
                      sg' = sg\<lparr>slots := sl, disconnector_ptr := Some this,
                               shared_disconnector := Some cb\<rparr>
                  in Inr (\<lparr>weak_disconnector = Some cb, index = i\<rparr>,
                          h\<lparr>signals := (signals h)(this \<mapsto> sg'),
                            blocks := blocks h @ [\<lparr>strong = 1, pointee = this\<rparr>]\<rparr>)
              | Some cb \<Rightarrow>
                  Inr (\<lparr>weak_disconnector = Some cb, index = i\<rparr>,
                       h\<lparr>signals := (signals h)(this \<mapsto> sg\<lparr>slots := sl\<rparr>)\<rparr>)))"

text \<open>
  The slots of a signal with signature \<open>R(A...)\<close> act on the rest of the program: a callable
  takes the arguments and the state \<open>'w\<close> of everything outside the signal, and returns its
  result with the new state. The source forbids a slot to re-enter its own signal while the
  lock is held, so a slot does not touch the heap of signals.

  \<open>operator()\<close>: the range-for loop over \<open>_slots\<close>, results discarded.
\<close>

fun trigger_loop :: "('a \<Rightarrow> 'w \<Rightarrow> 'r \<times> 'w) slot_type list \<Rightarrow> 'a \<Rightarrow> 'w \<Rightarrow> 'w" where
  "trigger_loop [] args w = w"
| "trigger_loop (slot # rest) args w =
     (case slot of
        None \<Rightarrow> trigger_loop rest args w
      | Some f \<Rightarrow> trigger_loop rest args (snd (f args w)))"

definition trigger :: "('a \<Rightarrow> 'w \<Rightarrow> 'r \<times> 'w) signal_type \<Rightarrow> 'a \<Rightarrow> 'w \<Rightarrow> 'w" where
  "trigger sg args w = trigger_loop (slots sg) args w"





text \<open>
  \<open>disconnector::operator()(index)\<close> of the disconnector embedded in the signal at
  address \<open>a\<close>: a no-op while \<open>_ptr\<close> is null, otherwise \<open>_ptr->disconnect( index )\<close>.
\<close>

definition disconnector_call :: "nat \<Rightarrow> nat \<Rightarrow> 'f heap \<Rightarrow> error + 'f heap" where
  "disconnector_call a i h =
     (case signals h a of
        None \<Rightarrow> Inl Dangling_access
      | Some sg \<Rightarrow>
          (case disconnector_ptr sg of
             None \<Rightarrow> Inr h
           | Some p \<Rightarrow>
               (case signals h p of
                  None \<Rightarrow> Inl Dangling_access
                | Some sp \<Rightarrow>
                    (case signal_disconnect i sp of
                       Inl e \<Rightarrow> Inl e
                     | Inr sp' \<Rightarrow> Inr (h\<lparr>signals := (signals h)(p \<mapsto> sp')\<rparr>)))))"

text \<open>
  \<open>connection::disconnect()\<close>: lock the weak pointer; if that gave a strong reference,
  call the disconnector it points at with the stored index; reset the weak pointer; the
  strong reference is dropped at the end of the scope.
\<close>

definition connection_disconnect :: "connection \<Rightarrow> 'f heap \<Rightarrow> error + (connection \<times> 'f heap)" where
  "connection_disconnect c h =
     (case weak_lock (weak_disconnector c) h of
        None \<Rightarrow> Inr (c\<lparr>weak_disconnector := None\<rparr>, h)
      | Some (cb, h1) \<Rightarrow>
          (case disconnector_call (pointee (blocks h1 ! cb)) (index c) h1 of
             Inl e \<Rightarrow> Inl e
           | Inr h2 \<Rightarrow> Inr (c\<lparr>weak_disconnector := None\<rparr>, release cb h2)))"

text \<open>
  \<open>~signal_type()\<close>: keep a weak pointer, reset the shared pointer, and loop while the weak
  pointer can still be locked. Each round locks and drops a temporary strong reference, so
  in a single thread the loop either ends at once or never; \<open>None\<close> is the loop that
  never ends, which the destructor reports as \<open>Never_returns\<close>. After the loop the
  members are destroyed and the address is free.
\<close>

partial_function (option) spin_wait :: "nat option \<Rightarrow> 'f heap \<Rightarrow> 'f heap option" where
  "spin_wait wp h =
     (case weak_lock wp h of
        None \<Rightarrow> Some h
      | Some (cb, h1) \<Rightarrow> spin_wait wp (release cb h1))"

declare spin_wait.simps [code]

definition shared_reset :: "nat \<Rightarrow> 'f heap \<Rightarrow> 'f heap" where
  "shared_reset this h =
     (case signals h this of
        None \<Rightarrow> h
      | Some sg \<Rightarrow>
          (case shared_disconnector sg of
             None \<Rightarrow> h
           | Some cb \<Rightarrow>
               (release cb h)\<lparr>signals := (signals h)(this \<mapsto> sg\<lparr>shared_disconnector := None\<rparr>)\<rparr>))"

definition signal_destroy :: "nat \<Rightarrow> 'f heap \<Rightarrow> error + 'f heap" where
  "signal_destroy this h =
     (case signals h this of
        None \<Rightarrow> Inl Dangling_access
      | Some sg \<Rightarrow>
          (case spin_wait (shared_disconnector sg) (shared_reset this h) of
             None \<Rightarrow> Inl Never_returns
           | Some h' \<Rightarrow> Inr (h'\<lparr>signals := (signals h')(this := None)\<rparr>)))"

section \<open>Scoped connection\<close>

text \<open>
  \<open>scoped_connection::disconnect\<close>, the destructor, \<open>reset\<close> and \<open>release\<close>. \<open>reset\<close>
  returns the scoped connection, what is left of its argument, and the heap; \<open>release\<close>
  returns the released connection and the scoped connection, and touches no heap.
\<close>

definition scoped_disconnect ::
  "scoped_connection \<Rightarrow> 'f heap \<Rightarrow> error + (scoped_connection \<times> 'f heap)" where
  "scoped_disconnect sc h =
     (case connection_disconnect (scoped_conn sc) h of
        Inl e \<Rightarrow> Inl e
      | Inr (c', h') \<Rightarrow> Inr (sc\<lparr>scoped_conn := c'\<rparr>, h'))"

definition scoped_destroy :: "scoped_connection \<Rightarrow> 'f heap \<Rightarrow> error + 'f heap" where
  "scoped_destroy sc h =
     (case scoped_disconnect sc h of
        Inl e \<Rightarrow> Inl e
      | Inr (sc', h') \<Rightarrow> Inr h')"

definition scoped_reset ::
  "scoped_connection \<Rightarrow> connection \<Rightarrow> 'f heap \<Rightarrow>
   error + (scoped_connection \<times> connection \<times> 'f heap)" where
  "scoped_reset sc c h =
     (case scoped_disconnect sc h of
        Inl e \<Rightarrow> Inl e
      | Inr (sc', h') \<Rightarrow>
          (case move_assign (scoped_conn sc') c of
             (this', c') \<Rightarrow> Inr (sc'\<lparr>scoped_conn := this'\<rparr>, c', h')))"

definition scoped_release :: "scoped_connection \<Rightarrow> connection \<times> scoped_connection" where
  "scoped_release sc =
     (case move_construct (scoped_conn sc) of
        (c, moved) \<Rightarrow>
          (case move_assign moved default_connection of
             (this', tmp) \<Rightarrow> (c, sc\<lparr>scoped_conn := this'\<rparr>)))"

section \<open>Client programs\<close>

text \<open>
  A client of the library holds signals and the connections that \<open>connect\<close> returned
  to it, and works on them through the public interface only. Its state is the list of its
  connection variables (in the order in which they were returned) and the heap. Triggering
  and accumulating read the slot vector and change nothing in this state, so they are not
  steps of it.

  \<open>Construct a\<close> builds a signal at the free address \<open>a\<close>, \<open>Connect a slot\<close>
  stores the returned connection in a new variable, \<open>Disconnect k\<close> calls
  \<open>disconnect()\<close> on variable \<open>k\<close>, \<open>Move_assign k j\<close> is
  \<open>conns[j] = std::move(conns[k])\<close>, \<open>Destroy a\<close> runs the destructor of the signal
  at \<open>a\<close>. A step that names an address in use (for \<open>Construct\<close>) or a variable
  that does not exist does nothing; moving a variable onto itself leaves it as it is.
\<close>

datatype 'f client_op =
    Construct nat
  | Connect nat "'f slot_type"
  | Disconnect nat
  | Move_assign nat nat
  | Destroy nat

type_synonym 'f client = "connection list \<times> 'f heap"

fun client_step :: "'f client_op \<Rightarrow> 'f client \<Rightarrow> error + 'f client" where
  "client_step (Construct a) (cs, h) =
     (if signals h a = None then Inr (cs, signal_construct a h) else Inr (cs, h))"
| "client_step (Connect a slot) (cs, h) =
     (case connect a slot h of
        Inl e \<Rightarrow> Inl e
      | Inr (c, h') \<Rightarrow> Inr (cs @ [c], h'))"
| "client_step (Disconnect k) (cs, h) =
     (if k < length cs
      then (case connection_disconnect (cs ! k) h of
              Inl e \<Rightarrow> Inl e
            | Inr (c', h') \<Rightarrow> Inr (cs[k := c'], h'))
      else Inr (cs, h))"
| "client_step (Move_assign k j) (cs, h) =
     (if k < length cs \<and> j < length cs \<and> k \<noteq> j
      then (case move_assign (cs ! j) (cs ! k) of
              (this', other') \<Rightarrow> Inr (cs[j := this', k := other'], h))
      else Inr (cs, h))"
| "client_step (Destroy a) (cs, h) =
     (case signal_destroy a h of
        Inl e \<Rightarrow> Inl e
      | Inr h' \<Rightarrow> Inr (cs, h'))"

fun run_client :: "'f client_op list \<Rightarrow> 'f client \<Rightarrow> error + 'f client" where
  "run_client [] st = Inr st"
| "run_client (x # xs) st =
     (case client_step x st of
        Inl e \<Rightarrow> Inl e
      | Inr st' \<Rightarrow> run_client xs st')"

section \<open>The fold that \<open>accumulate\<close> promises\<close>




section \<open>Invariants of the heap\<close>

text \<open>
  \<open>heap_ok\<close>: a live signal that holds a shared pointer is the one strong owner of its
  control block, the block points back at it and its disconnector is bound to it; and a
  control block with a strong owner belongs to a live signal. \<open>known c h\<close>: the weak
  pointer of \<open>c\<close> is empty or refers to a control block that exists in \<open>h\<close>.
  \<open>client_ok\<close> puts the two together for a client. \<open>destroyed a sg h\<close> is the heap
  that the destructor of the signal \<open>sg\<close> at \<open>a\<close> leaves behind.
\<close>

definition heap_ok :: "'f heap \<Rightarrow> bool" where
  "heap_ok h \<longleftrightarrow>
     (\<forall>a sg cb. signals h a = Some sg \<and> shared_disconnector sg = Some cb \<longrightarrow>
        cb < length (blocks h) \<and> strong (blocks h ! cb) = 1 \<and> pointee (blocks h ! cb) = a \<and>
        disconnector_ptr sg = Some a)
   \<and> (\<forall>cb. cb < length (blocks h) \<and> 0 < strong (blocks h ! cb) \<longrightarrow>
        (\<exists>sg. signals h (pointee (blocks h ! cb)) = Some sg \<and> shared_disconnector sg = Some cb))"

definition known :: "connection \<Rightarrow> 'f heap \<Rightarrow> bool" where
  "known c h = (case weak_disconnector c of None \<Rightarrow> True | Some cb \<Rightarrow> cb < length (blocks h))"

definition client_ok :: "'f client \<Rightarrow> bool" where
  "client_ok st \<longleftrightarrow> heap_ok (snd st) \<and> (\<forall>c \<in> set (fst st). known c (snd st))"

definition destroyed :: "nat \<Rightarrow> 'f signal_type \<Rightarrow> 'f heap \<Rightarrow> 'f heap" where
  "destroyed a sg h =
     h\<lparr>signals := (signals h)(a := None),
       blocks := (case shared_disconnector sg of
                    None \<Rightarrow> blocks h
                  | Some cb \<Rightarrow> (blocks h)[cb := (blocks h ! cb)\<lparr>strong := 0\<rparr>])\<rparr>"

text \<open>
  The invariant that the assertion of \<open>signal_type::disconnect\<close> relies on: a connection
  that reports \<open>connected()\<close> addresses a non-empty slot of its signal, and two connected
  connections of one signal have different indices. \<open>connects_callable\<close> holds of a
  client step unless it connects an empty callable.
\<close>

definition addresses_live_slot :: "connection \<Rightarrow> 'f heap \<Rightarrow> bool" where
  "addresses_live_slot c h \<longleftrightarrow>
     (connected c h \<longrightarrow>
        (\<exists>cb sg. weak_disconnector c = Some cb \<and>
                 signals h (pointee (blocks h ! cb)) = Some sg \<and>
                 index c < length (slots sg) \<and> slots sg ! index c \<noteq> None))"

definition indices_ok :: "'f client \<Rightarrow> bool" where
  "indices_ok st \<longleftrightarrow>
     (\<forall>k < length (fst st). addresses_live_slot (fst st ! k) (snd st))
   \<and> (\<forall>k < length (fst st). \<forall>j < length (fst st).
        k \<noteq> j \<and> connected (fst st ! k) (snd st) \<and>
        weak_disconnector (fst st ! k) = weak_disconnector (fst st ! j) \<longrightarrow>
        index (fst st ! k) \<noteq> index (fst st ! j))"

fun connects_callable :: "'f client_op \<Rightarrow> bool" where
  "connects_callable (Connect a slot) = (slot \<noteq> None)"
| "connects_callable _ = True"

text \<open>
  Two more invariants, of clients that connect callables only and never assign over a
  connection (\<open>plain_op\<close>): every non-empty slot of a live signal is addressed by a
  connected connection of that signal (\<open>slots_owned\<close>), and no slot vector ends in an
  empty slot (\<open>slots_trimmed\<close>).
\<close>

fun plain_op :: "'f client_op \<Rightarrow> bool" where
  "plain_op (Connect a slot) = (slot \<noteq> None)"
| "plain_op (Move_assign k j) = False"
| "plain_op _ = True"

definition slots_owned :: "'f client \<Rightarrow> bool" where
  "slots_owned st \<longleftrightarrow>
     (\<forall>a sg i. signals (snd st) a = Some sg \<and> i < length (slots sg) \<and> slots sg ! i \<noteq> None \<longrightarrow>
        (\<exists>k < length (fst st). connected (fst st ! k) (snd st) \<and>
             weak_disconnector (fst st ! k) = shared_disconnector sg \<and> index (fst st ! k) = i))"

definition slots_trimmed :: "'f heap \<Rightarrow> bool" where
  "slots_trimmed h \<longleftrightarrow>
     (\<forall>a sg. signals h a = Some sg \<and> slots sg \<noteq> [] \<longrightarrow> last (slots sg) \<noteq> None)"

section \<open>Triggering\<close>

lemma trigger_loop_append:
  "trigger_loop (xs @ ys) args w = trigger_loop ys args (trigger_loop xs args w)"
  by (induction xs arbitrary: w) (auto split: option.splits)

lemma live_indices_snoc:
  "filter (\<lambda>i. (xs @ [s]) ! i \<noteq> None) [0..<length (xs @ [s])] =
   filter (\<lambda>i. xs ! i \<noteq> None) [0..<length xs] @ (if s \<noteq> None then [length xs] else [])"
proof -
  have "filter (\<lambda>i. (xs @ [s]) ! i \<noteq> None) [0..<length xs] =
        filter (\<lambda>i. xs ! i \<noteq> None) [0..<length xs]"
    by (rule filter_cong) (auto simp: nth_append)
  then show ?thesis by simp
qed

lemma foldl_live_indices_snoc:
  "foldl (\<lambda>w' i. snd (the ((xs @ [s]) ! i) args w')) w (filter (\<lambda>i. xs ! i \<noteq> None) [0..<length xs]) =
   foldl (\<lambda>w' i. snd (the (xs ! i) args w')) w (filter (\<lambda>i. xs ! i \<noteq> None) [0..<length xs])"
  by (rule foldl_cong) (auto simp: nth_append)

lemma trigger_loop_indices:
  "trigger_loop sl args w =
   foldl (\<lambda>w' i. snd (the (sl ! i) args w')) w (filter (\<lambda>i. sl ! i \<noteq> None) [0..<length sl])"
proof (induction sl arbitrary: w rule: rev_induct)
  case Nil
  show ?case by simp
next
  case (snoc s xs)
  let ?live = "filter (\<lambda>i. xs ! i \<noteq> None) [0..<length xs]"
  let ?step = "\<lambda>w' i. snd (the ((xs @ [s]) ! i) args w')"
  have before: "foldl ?step w ?live = trigger_loop xs args w"
    using snoc.IH [of w] foldl_live_indices_snoc [of xs s args w] by simp
  have last: "trigger_loop [s] args w' = foldl ?step w' (if s \<noteq> None then [length xs] else [])"
    for w'
    by (cases s) simp_all
  have "trigger_loop (xs @ [s]) args w = trigger_loop [s] args (trigger_loop xs args w)"
    by (rule trigger_loop_append)
  also have "\<dots> = foldl ?step (foldl ?step w ?live) (if s \<noteq> None then [length xs] else [])"
    by (simp only: before last)
  also have "\<dots> = foldl ?step w (?live @ (if s \<noteq> None then [length xs] else []))"
    by (simp only: foldl_append)
  finally show ?case
    by (simp only: live_indices_snoc)
qed

text \<open>
  C2. For every slot vector and every argument, triggering the signal has the effect of
  calling the non-empty slots, and only those, in ascending index order, each with the same
  arguments; empty slots are passed over, and the call returns nothing but the state the
  slots left behind.
\<close>

theorem trigger_calls_live_slots_in_order:
  "trigger sg args w =
   foldl (\<lambda>w' i. snd (the (slots sg ! i) args w')) w
     (filter (\<lambda>i. slots sg ! i \<noteq> None) [0..<length (slots sg)])"
  by (simp add: trigger_def trigger_loop_indices)

section \<open>Accumulating\<close>






section \<open>Trimming the tail\<close>

lemma trim_tail_Nil [simp]: "trim_tail [] = []"
  by (simp add: trim_tail.simps)

lemma trim_tail_snoc_None [simp]: "trim_tail (xs @ [None]) = trim_tail xs"
  by (subst trim_tail.simps) simp

lemma trim_tail_snoc_Some [simp]: "trim_tail (xs @ [Some f]) = xs @ [Some f]"
  by (subst trim_tail.simps) simp

lemma trim_tail_dropWhile:
  "trim_tail xs = rev (dropWhile (\<lambda>s. s = None) (rev xs))"
proof (induction xs rule: rev_induct)
  case Nil
  show ?case by simp
next
  case (snoc s xs)
  then show ?case by (cases s) simp_all
qed

lemma trim_tail_decompose:
  "\<exists>n. xs = trim_tail xs @ replicate n None"
proof (induction xs rule: rev_induct)
  case Nil
  show ?case by simp
next
  case (snoc s xs)
  show ?case
  proof (cases s)
    case None
    from snoc obtain n where dec: "xs = trim_tail xs @ replicate n None" by blast
    have "xs @ [s] = (trim_tail xs @ replicate n None) @ [None]"
      using dec None by simp
    also have "\<dots> = trim_tail xs @ replicate (Suc n) None"
      by (simp add: replicate_append_same)
    also have "\<dots> = trim_tail (xs @ [s]) @ replicate (Suc n) None"
      using None by simp
    finally show ?thesis by blast
  next
    case (Some f)
    then have "xs @ [s] = trim_tail (xs @ [s]) @ replicate 0 None" by simp
    then show ?thesis by blast
  qed
qed

lemma trim_tail_length_le: "length (trim_tail xs) \<le> length xs"
proof -
  obtain n where "xs = trim_tail xs @ replicate n None"
    using trim_tail_decompose by blast
  then have "length xs = length (trim_tail xs) + n"
    by (metis length_append length_replicate)
  then show ?thesis by simp
qed

lemma trim_tail_nth:
  assumes "i < length (trim_tail xs)"
  shows "trim_tail xs ! i = xs ! i"
proof -
  obtain n where "xs = trim_tail xs @ replicate n None"
    using trim_tail_decompose by blast
  then have "xs ! i = (trim_tail xs @ replicate n None) ! i" by simp
  with assms show ?thesis by (simp add: nth_append)
qed

lemma trim_tail_keeps_live:
  assumes "i < length xs" and "xs ! i \<noteq> None"
  shows "i < length (trim_tail xs)"
proof (rule ccontr)
  assume out: "\<not> i < length (trim_tail xs)"
  obtain n where dec: "xs = trim_tail xs @ replicate n None"
    using trim_tail_decompose by blast
  have len: "length xs = length (trim_tail xs) + n"
    by (metis dec length_append length_replicate)
  have "xs ! i = (trim_tail xs @ replicate n None) ! i"
    using dec by simp
  also have "\<dots> = replicate n None ! (i - length (trim_tail xs))"
    using out by (simp add: nth_append)
  also have "\<dots> = None"
    using out assms(1) len by simp
  finally show False using assms(2) by simp
qed

lemma trim_tail_last_live:
  "trim_tail xs \<noteq> [] \<Longrightarrow> last (trim_tail xs) \<noteq> None"
proof (induction xs rule: rev_induct)
  case Nil
  then show ?case by simp
next
  case (snoc s xs)
  then show ?case by (cases s) simp_all
qed

lemma trim_tail_all_empty:
  "\<forall>s \<in> set xs. s = None \<Longrightarrow> trim_tail xs = []"
  by (induction xs rule: rev_induct) simp_all

lemma trim_tail_idem: "trim_tail (trim_tail xs) = trim_tail xs"
proof (induction xs rule: rev_induct)
  case Nil
  show ?case by simp
next
  case (snoc s xs)
  then show ?case by (cases s) simp_all
qed

section \<open>Weak pointers, the disconnector and the destructor loop\<close>

lemma expired_None [simp]: "expired None h"
  by (simp add: expired_def)

lemma expired_Some:
  "expired (Some cb) h \<longleftrightarrow> \<not> (cb < length (blocks h) \<and> 0 < strong (blocks h ! cb))"
  by (simp add: expired_def)

lemma weak_lock_expired: "expired wp h \<Longrightarrow> weak_lock wp h = None"
  by (cases wp) (simp_all add: weak_lock_def)

lemma weak_lock_live: "\<not> expired (Some cb) h \<Longrightarrow> weak_lock (Some cb) h = Some (cb, acquire cb h)"
  by (simp add: weak_lock_def)

lemma release_acquire: "cb < length (blocks h) \<Longrightarrow> release cb (acquire cb h) = h"
  by (simp add: release_def acquire_def)

lemma signals_acquire [simp]: "signals (acquire cb h) = signals h"
  by (simp add: acquire_def)

lemma signals_release [simp]: "signals (release cb h) = signals h"
  by (simp add: release_def)

lemma length_blocks_acquire [simp]: "length (blocks (acquire cb h)) = length (blocks h)"
  by (simp add: acquire_def)

lemma pointee_acquire [simp]: "pointee (blocks (acquire cb h) ! n) = pointee (blocks h ! n)"
  by (cases "cb < length (blocks h)"; cases "n = cb") (simp_all add: acquire_def list_update_beyond)

lemma disconnector_call_blocks:
  "disconnector_call a i (h\<lparr>blocks := b\<rparr>) =
     (case disconnector_call a i h of Inl e \<Rightarrow> Inl e | Inr h' \<Rightarrow> Inr (h'\<lparr>blocks := b\<rparr>))"
  by (simp add: disconnector_call_def split: option.splits sum.splits)

lemma disconnector_call_acquire:
  "disconnector_call a i (acquire cb h) =
     (case disconnector_call a i h of Inl e \<Rightarrow> Inl e | Inr h' \<Rightarrow> Inr (acquire cb h'))"
  by (simp add: disconnector_call_def acquire_def split: option.splits sum.splits)

lemma disconnector_call_blocks_same:
  "disconnector_call a i h = Inr h' \<Longrightarrow> blocks h' = blocks h"
  by (auto simp: disconnector_call_def split: option.splits sum.splits)

lemma connection_disconnect_expired:
  "expired (weak_disconnector c) h \<Longrightarrow>
   connection_disconnect c h = Inr (c\<lparr>weak_disconnector := None\<rparr>, h)"
  by (simp add: connection_disconnect_def weak_lock_expired)

lemma connection_disconnect_live:
  assumes "weak_disconnector c = Some cb" and "\<not> expired (Some cb) h"
  shows "connection_disconnect c h =
           (case disconnector_call (pointee (blocks h ! cb)) (index c) h of
              Inl e \<Rightarrow> Inl e
            | Inr h' \<Rightarrow> Inr (c\<lparr>weak_disconnector := None\<rparr>, h'))"
proof -
  have cb: "cb < length (blocks h)"
    using assms(2) by (simp add: expired_Some)
  show ?thesis
  proof (cases "disconnector_call (pointee (blocks h ! cb)) (index c) h")
    case (Inl e)
    then show ?thesis
      using assms by (simp add: connection_disconnect_def weak_lock_live disconnector_call_acquire)
  next
    case (Inr h')
    have "blocks h' = blocks h"
      using Inr by (rule disconnector_call_blocks_same)
    then have "release cb (acquire cb h') = h'"
      using cb by (simp add: release_acquire)
    then show ?thesis
      using assms Inr
      by (simp add: connection_disconnect_def weak_lock_live disconnector_call_acquire)
  qed
qed

lemma spin_wait_expired: "expired wp h \<Longrightarrow> spin_wait wp h = Some h"
  by (subst spin_wait.simps) (simp add: weak_lock_expired)

lemma weak_lock_None_iff: "weak_lock wp h = None \<longleftrightarrow> expired wp h"
  by (cases wp) (simp_all add: weak_lock_def)

lemma expired_release_acquire:
  "\<not> expired (Some cb) h \<Longrightarrow> \<not> expired (Some cb) (release cb (acquire cb h))"
  by (simp add: expired_Some release_acquire)

lemma spin_wait_Some:
  fixes h :: "'f heap"
  assumes "spin_wait wp h = Some y"
  shows "expired wp h \<and> y = h"
proof (rule spin_wait.raw_induct [where P = "\<lambda>wp h y. expired wp h \<and> y = h", OF _ assms])
  fix spin :: "nat option \<Rightarrow> 'f heap \<Rightarrow> 'f heap option" and wp' and h' y' :: "'f heap"
  assume IH: "\<And>wp h y. spin wp h = Some y \<Longrightarrow> expired wp h \<and> y = h"
  assume eq: "(case weak_lock wp' h' of None \<Rightarrow> Some h'
               | Some (cb, h1) \<Rightarrow> spin wp' (release cb h1)) = Some y'"
  show "expired wp' h' \<and> y' = h'"
  proof (cases "weak_lock wp' h'")
    case None
    with eq show ?thesis by (simp add: weak_lock_None_iff)
  next
    case (Some p)
    obtain cb h1 where p: "p = (cb, h1)" by (cases p)
    from Some p have wp: "wp' = Some cb" and live: "\<not> expired (Some cb) h'"
      and h1: "h1 = acquire cb h'"
      by (auto simp: weak_lock_def split: option.splits if_splits)
    from eq Some p have "spin wp' (release cb h1) = Some y'" by simp
    then have "expired wp' (release cb h1)" using IH by blast
    with wp h1 live expired_release_acquire show ?thesis by blast
  qed
qed

lemma spin_wait_iff: "spin_wait wp h = Some y \<longleftrightarrow> expired wp h \<and> y = h"
  using spin_wait_Some spin_wait_expired by blast

lemma heap_ok_empty: "heap_ok empty_heap"
  by (simp add: heap_ok_def empty_heap_def)

section \<open>The heap invariant is kept\<close>

lemma heap_okI:
  assumes "\<And>a sg cb. signals h a = Some sg \<Longrightarrow> shared_disconnector sg = Some cb \<Longrightarrow>
             cb < length (blocks h) \<and> strong (blocks h ! cb) = 1 \<and> pointee (blocks h ! cb) = a \<and>
             disconnector_ptr sg = Some a"
    and "\<And>cb. cb < length (blocks h) \<Longrightarrow> 0 < strong (blocks h ! cb) \<Longrightarrow>
             \<exists>sg. signals h (pointee (blocks h ! cb)) = Some sg \<and> shared_disconnector sg = Some cb"
  shows "heap_ok h"
  using assms unfolding heap_ok_def by blast

lemma heap_ok_owner:
  assumes "heap_ok h" and "signals h a = Some sg" and "shared_disconnector sg = Some cb"
  shows "cb < length (blocks h)" and "strong (blocks h ! cb) = 1"
    and "pointee (blocks h ! cb) = a" and "disconnector_ptr sg = Some a"
  using assms unfolding heap_ok_def by blast+

lemma heap_ok_block:
  assumes "heap_ok h" and "cb < length (blocks h)" and "0 < strong (blocks h ! cb)"
  shows "\<exists>sg. signals h (pointee (blocks h ! cb)) = Some sg \<and> shared_disconnector sg = Some cb"
  using assms unfolding heap_ok_def by blast

lemma heap_ok_construct:
  assumes ok: "heap_ok h" and free: "signals h a = None"
  shows "heap_ok (signal_construct a h)"
proof (rule heap_okI)
  fix a' sg cb
  assume "signals (signal_construct a h) a' = Some sg" and sh: "shared_disconnector sg = Some cb"
  then have "signals h a' = Some sg"
    by (cases "a' = a") (auto simp: signal_construct_def default_signal_def)
  from heap_ok_owner [OF ok this sh]
  show "cb < length (blocks (signal_construct a h)) \<and>
        strong (blocks (signal_construct a h) ! cb) = 1 \<and>
        pointee (blocks (signal_construct a h) ! cb) = a' \<and> disconnector_ptr sg = Some a'"
    by (simp add: signal_construct_def)
next
  fix cb
  assume "cb < length (blocks (signal_construct a h))"
    and "0 < strong (blocks (signal_construct a h) ! cb)"
  then have "cb < length (blocks h)" and "0 < strong (blocks h ! cb)"
    by (simp_all add: signal_construct_def)
  from heap_ok_block [OF ok this]
  obtain sg where sg: "signals h (pointee (blocks h ! cb)) = Some sg"
    and sh: "shared_disconnector sg = Some cb" by blast
  from sg free have "pointee (blocks h ! cb) \<noteq> a" by auto
  with sg sh
  show "\<exists>sg. signals (signal_construct a h) (pointee (blocks (signal_construct a h) ! cb)) = Some sg \<and>
             shared_disconnector sg = Some cb"
    by (simp add: signal_construct_def)
qed

text \<open>What connect returns, case by case.\<close>

lemma connect_first:
  assumes "signals h a = Some sg" and "shared_disconnector sg = None"
  shows "connect a slot h =
           Inr (\<lparr>weak_disconnector = Some (length (blocks h)), index = length (slots sg)\<rparr>,
                h\<lparr>signals := (signals h)(a \<mapsto> sg\<lparr>slots := slots sg @ [slot],
                                                    disconnector_ptr := Some a,
                                                    shared_disconnector := Some (length (blocks h))\<rparr>),
                  blocks := blocks h @ [\<lparr>strong = 1, pointee = a\<rparr>]\<rparr>)"
  using assms by (simp add: connect_def Let_def)

lemma connect_later:
  assumes "signals h a = Some sg" and "shared_disconnector sg = Some cb"
  shows "connect a slot h =
           Inr (\<lparr>weak_disconnector = Some cb, index = length (slots sg)\<rparr>,
                h\<lparr>signals := (signals h)(a \<mapsto> sg\<lparr>slots := slots sg @ [slot]\<rparr>)\<rparr>)"
  using assms by (simp add: connect_def Let_def)

lemma connect_dead: "signals h a = None \<Longrightarrow> connect a slot h = Inl Dangling_access"
  by (simp add: connect_def)

lemma heap_ok_connect:
  assumes ok: "heap_ok h" and con: "connect a slot h = Inr (c, h')"
  shows "heap_ok h'"
proof -
  from con obtain sg where sg: "signals h a = Some sg"
    by (cases "signals h a") (simp_all add: connect_dead)
  show ?thesis
  proof (cases "shared_disconnector sg")
    case None
    let ?n = "length (blocks h)"
    let ?sg' = "sg\<lparr>slots := slots sg @ [slot], disconnector_ptr := Some a,
                   shared_disconnector := Some ?n\<rparr>"
    from con connect_first [OF sg None, of slot]
    have h': "h' = h\<lparr>signals := (signals h)(a \<mapsto> ?sg'),
                    blocks := blocks h @ [\<lparr>strong = 1, pointee = a\<rparr>]\<rparr>"
      by simp
    show ?thesis
    proof (rule heap_okI)
      fix a' s cb
      assume s: "signals h' a' = Some s" and sh: "shared_disconnector s = Some cb"
      show "cb < length (blocks h') \<and> strong (blocks h' ! cb) = 1 \<and>
            pointee (blocks h' ! cb) = a' \<and> disconnector_ptr s = Some a'"
      proof (cases "a' = a")
        case True
        with s sh h' show ?thesis by auto
      next
        case False
        with s h' have "signals h a' = Some s" by simp
        from heap_ok_owner [OF ok this sh] h' show ?thesis
          by (simp add: nth_append)
      qed
    next
      fix cb
      assume lt: "cb < length (blocks h')" and pos: "0 < strong (blocks h' ! cb)"
      show "\<exists>s. signals h' (pointee (blocks h' ! cb)) = Some s \<and> shared_disconnector s = Some cb"
      proof (cases "cb = ?n")
        case True
        with h' show ?thesis by simp
      next
        case False
        with lt h' have lt': "cb < length (blocks h)" by simp
        with pos h' have pos': "0 < strong (blocks h ! cb)" by (simp add: nth_append)
        from heap_ok_block [OF ok lt' pos']
        obtain s where s: "signals h (pointee (blocks h ! cb)) = Some s"
          and sh: "shared_disconnector s = Some cb" by blast
        have "pointee (blocks h ! cb) \<noteq> a"
          using s sh sg None by auto
        with s sh h' lt' show ?thesis by (simp add: nth_append)
      qed
    qed
  next
    case (Some cb0)
    let ?sg' = "sg\<lparr>slots := slots sg @ [slot]\<rparr>"
    from con connect_later [OF sg Some, of slot]
    have h': "h' = h\<lparr>signals := (signals h)(a \<mapsto> ?sg')\<rparr>" by simp
    show ?thesis
    proof (rule heap_okI)
      fix a' s cb
      assume s: "signals h' a' = Some s" and sh: "shared_disconnector s = Some cb"
      show "cb < length (blocks h') \<and> strong (blocks h' ! cb) = 1 \<and>
            pointee (blocks h' ! cb) = a' \<and> disconnector_ptr s = Some a'"
      proof (cases "a' = a")
        case True
        with s sh h' have "shared_disconnector sg = Some cb" and "disconnector_ptr s = disconnector_ptr sg"
          by auto
        with heap_ok_owner [OF ok sg, of cb] True h' show ?thesis by simp
      next
        case False
        with s h' have "signals h a' = Some s" by simp
        from heap_ok_owner [OF ok this sh] h' show ?thesis by simp
      qed
    next
      fix cb
      assume "cb < length (blocks h')" and "0 < strong (blocks h' ! cb)"
      with h' have lt': "cb < length (blocks h)" and pos': "0 < strong (blocks h ! cb)" by simp_all
      from heap_ok_block [OF ok lt' pos']
      obtain s where s: "signals h (pointee (blocks h ! cb)) = Some s"
        and sh: "shared_disconnector s = Some cb" by blast
      show "\<exists>s. signals h' (pointee (blocks h' ! cb)) = Some s \<and> shared_disconnector s = Some cb"
      proof (cases "pointee (blocks h ! cb) = a")
        case True
        with s sg sh h' show ?thesis by simp
      next
        case False
        with s sh h' show ?thesis by simp
      qed
    qed
  qed
qed

lemma signal_disconnect_Inr:
  "signal_disconnect i sg = Inr sg' \<longleftrightarrow>
     i < length (slots sg) \<and> sg' = sg\<lparr>slots := trim_tail ((slots sg)[i := None])\<rparr>"
  by (auto simp: signal_disconnect_def)

lemma signal_disconnect_Inl:
  "signal_disconnect i sg = Inl e \<longleftrightarrow> length (slots sg) \<le> i \<and> e = Assertion_failed"
  by (auto simp: signal_disconnect_def)

lemma disconnector_call_cases:
  assumes call: "disconnector_call a i h = Inr h'"
  obtains (noop) "h' = h"
  | (cleared) p sp where "signals h p = Some sp" and "i < length (slots sp)"
      and "h' = h\<lparr>signals := (signals h)(p \<mapsto> sp\<lparr>slots := trim_tail ((slots sp)[i := None])\<rparr>)\<rparr>"
proof (cases "signals h a")
  case None
  with call show ?thesis by (simp add: disconnector_call_def)
next
  case (Some sg)
  show ?thesis
  proof (cases "disconnector_ptr sg")
    case None
    with call Some have "h' = h" by (simp add: disconnector_call_def)
    then show ?thesis by (rule noop)
  next
    case ptr: (Some p)
    show ?thesis
    proof (cases "signals h p")
      case None
      with call Some ptr show ?thesis by (simp add: disconnector_call_def)
    next
      case sp: (Some sp)
      show ?thesis
      proof (cases "signal_disconnect i sp")
        case (Inl e)
        with call Some ptr sp show ?thesis by (simp add: disconnector_call_def)
      next
        case (Inr sp')
        then have "i < length (slots sp)"
          and "sp' = sp\<lparr>slots := trim_tail ((slots sp)[i := None])\<rparr>"
          by (simp_all add: signal_disconnect_Inr)
        moreover have "h' = h\<lparr>signals := (signals h)(p \<mapsto> sp')\<rparr>"
          using call Some ptr sp Inr by (simp add: disconnector_call_def)
        ultimately show ?thesis using sp by (intro cleared) simp_all
      qed
    qed
  qed
qed

lemma heap_ok_slots_update:
  assumes ok: "heap_ok h" and sp: "signals h p = Some sp"
  shows "heap_ok (h\<lparr>signals := (signals h)(p \<mapsto> sp\<lparr>slots := sl\<rparr>)\<rparr>)"
proof (rule heap_okI)
  let ?h = "h\<lparr>signals := (signals h)(p \<mapsto> sp\<lparr>slots := sl\<rparr>)\<rparr>"
  fix a s cb
  assume s: "signals ?h a = Some s" and sh: "shared_disconnector s = Some cb"
  show "cb < length (blocks ?h) \<and> strong (blocks ?h ! cb) = 1 \<and>
        pointee (blocks ?h ! cb) = a \<and> disconnector_ptr s = Some a"
  proof (cases "a = p")
    case True
    with s sh have "shared_disconnector sp = Some cb" and "disconnector_ptr s = disconnector_ptr sp"
      by auto
    with heap_ok_owner [OF ok sp, of cb] True show ?thesis by simp
  next
    case False
    with s have "signals h a = Some s" by simp
    from heap_ok_owner [OF ok this sh] show ?thesis by simp
  qed
next
  let ?h = "h\<lparr>signals := (signals h)(p \<mapsto> sp\<lparr>slots := sl\<rparr>)\<rparr>"
  fix cb
  assume "cb < length (blocks ?h)" and "0 < strong (blocks ?h ! cb)"
  then have lt: "cb < length (blocks h)" and pos: "0 < strong (blocks h ! cb)" by simp_all
  from heap_ok_block [OF ok lt pos]
  obtain s where s: "signals h (pointee (blocks h ! cb)) = Some s"
    and sh: "shared_disconnector s = Some cb" by blast
  show "\<exists>s. signals ?h (pointee (blocks ?h ! cb)) = Some s \<and> shared_disconnector s = Some cb"
  proof (cases "pointee (blocks h ! cb) = p")
    case True
    with s sp sh show ?thesis by simp
  next
    case False
    with s sh show ?thesis by simp
  qed
qed

lemma heap_ok_disconnector_call:
  assumes "heap_ok h" and "disconnector_call a i h = Inr h'"
  shows "heap_ok h'"
  using assms(2)
proof (cases rule: disconnector_call_cases)
  case noop
  with assms(1) show ?thesis by simp
next
  case (cleared p sp)
  with heap_ok_slots_update [OF assms(1) cleared(1)] show ?thesis by simp
qed

lemma connection_disconnect_cases:
  assumes "connection_disconnect c h = Inr (c', h')"
  obtains (dead) "expired (weak_disconnector c) h" and "c' = c\<lparr>weak_disconnector := None\<rparr>" and "h' = h"
  | (live) cb where "weak_disconnector c = Some cb" and "\<not> expired (Some cb) h"
      and "c' = c\<lparr>weak_disconnector := None\<rparr>"
      and "disconnector_call (pointee (blocks h ! cb)) (index c) h = Inr h'"
proof (cases "expired (weak_disconnector c) h")
  case True
  have "Inr (c', h') = connection_disconnect c h"
    using assms by (rule sym)
  also have "\<dots> = Inr (c\<lparr>weak_disconnector := None\<rparr>, h)"
    using True by (rule connection_disconnect_expired)
  finally have "c' = c\<lparr>weak_disconnector := None\<rparr>" and "h' = h"
    by simp_all
  with True show ?thesis by (rule dead)
next
  case False
  then obtain cb where cb: "weak_disconnector c = Some cb"
    by (cases "weak_disconnector c") simp_all
  with False have nexp: "\<not> expired (Some cb) h" by simp
  let ?call = "disconnector_call (pointee (blocks h ! cb)) (index c) h"
  have eq: "Inr (c', h') =
            (case ?call of Inl e \<Rightarrow> Inl e | Inr h2 \<Rightarrow> Inr (c\<lparr>weak_disconnector := None\<rparr>, h2))"
    using assms connection_disconnect_live [OF cb nexp] by (rule trans [OF sym])
  show ?thesis
  proof (cases ?call)
    case (Inl e)
    with eq show ?thesis by simp
  next
    case (Inr h2)
    with eq have "c' = c\<lparr>weak_disconnector := None\<rparr>" and "h' = h2" by simp_all
    with cb nexp Inr show ?thesis by (intro live) simp_all
  qed
qed

lemma heap_ok_connection_disconnect:
  assumes "heap_ok h" and "connection_disconnect c h = Inr (c', h')"
  shows "heap_ok h'"
  using assms(2)
proof (cases rule: connection_disconnect_cases)
  case dead
  with assms(1) show ?thesis by simp
next
  case (live cb)
  from heap_ok_disconnector_call [OF assms(1) live(4)] show ?thesis .
qed

lemma signal_destroy_alive:
  assumes ok: "heap_ok h" and sg: "signals h a = Some sg"
  shows "signal_destroy a h = Inr (destroyed a sg h)"
proof (cases "shared_disconnector sg")
  case None
  then have "shared_reset a h = h"
    using sg by (simp add: shared_reset_def)
  moreover have "spin_wait None h = Some h"
    by (rule spin_wait_expired) simp
  ultimately show ?thesis
    using sg None by (simp add: signal_destroy_def destroyed_def)
next
  case (Some cb)
  let ?h1 = "(release cb h)\<lparr>signals := (signals h)(a \<mapsto> sg\<lparr>shared_disconnector := None\<rparr>)\<rparr>"
  have reset: "shared_reset a h = ?h1"
    using sg Some by (simp add: shared_reset_def)
  from heap_ok_owner [OF ok sg Some]
  have cb: "cb < length (blocks h)" and one: "strong (blocks h ! cb) = 1" by simp_all
  have "expired (Some cb) ?h1"
    using cb one by (simp add: expired_Some release_def)
  then have "spin_wait (Some cb) ?h1 = Some ?h1"
    by (rule spin_wait_expired)
  moreover have "?h1\<lparr>signals := (signals ?h1)(a := None)\<rparr> = destroyed a sg h"
    using Some one by (simp add: destroyed_def release_def)
  ultimately show ?thesis
    using sg Some reset by (simp add: signal_destroy_def)
qed

lemma signal_destroy_dead: "signals h a = None \<Longrightarrow> signal_destroy a h = Inl Dangling_access"
  by (simp add: signal_destroy_def)

lemma heap_ok_destroyed:
  assumes ok: "heap_ok h" and sg: "signals h a = Some sg"
  shows "heap_ok (destroyed a sg h)"
proof (rule heap_okI)
  let ?h = "destroyed a sg h"
  fix a' s cb
  assume s: "signals ?h a' = Some s" and sh: "shared_disconnector s = Some cb"
  from s have ne: "a' \<noteq> a" and s': "signals h a' = Some s"
    by (auto simp: destroyed_def split: if_splits)
  from heap_ok_owner [OF ok s' sh]
  have own: "cb < length (blocks h)" "strong (blocks h ! cb) = 1" "pointee (blocks h ! cb) = a'"
    "disconnector_ptr s = Some a'" by simp_all
  have "blocks ?h ! cb = blocks h ! cb"
  proof (cases "shared_disconnector sg")
    case None
    then show ?thesis by (simp add: destroyed_def)
  next
    case (Some cb0)
    from heap_ok_owner(3) [OF ok sg Some] own(3) ne have "cb0 \<noteq> cb" by auto
    with Some show ?thesis by (simp add: destroyed_def)
  qed
  moreover have "length (blocks ?h) = length (blocks h)"
    by (simp add: destroyed_def split: option.splits)
  ultimately show "cb < length (blocks ?h) \<and> strong (blocks ?h ! cb) = 1 \<and>
        pointee (blocks ?h ! cb) = a' \<and> disconnector_ptr s = Some a'"
    using own by simp
next
  let ?h = "destroyed a sg h"
  fix cb
  assume lt: "cb < length (blocks ?h)" and pos: "0 < strong (blocks ?h ! cb)"
  have len: "length (blocks ?h) = length (blocks h)"
    by (simp add: destroyed_def split: option.splits)
  have other: "shared_disconnector sg \<noteq> Some cb"
  proof
    assume "shared_disconnector sg = Some cb"
    with lt len have "strong (blocks ?h ! cb) = 0" by (simp add: destroyed_def)
    with pos show False by simp
  qed
  then have same: "blocks ?h ! cb = blocks h ! cb"
    by (cases "shared_disconnector sg") (auto simp: destroyed_def)
  from lt len pos same have lt': "cb < length (blocks h)" and pos': "0 < strong (blocks h ! cb)"
    by simp_all
  from heap_ok_block [OF ok lt' pos']
  obtain s where s: "signals h (pointee (blocks h ! cb)) = Some s"
    and sh: "shared_disconnector s = Some cb" by blast
  have "pointee (blocks h ! cb) \<noteq> a"
    using s sh sg other by auto
  with s sh same
  show "\<exists>s. signals ?h (pointee (blocks ?h ! cb)) = Some s \<and> shared_disconnector s = Some cb"
    by (simp add: destroyed_def)
qed

lemma heap_ok_signal_destroy:
  assumes "heap_ok h" and "signal_destroy a h = Inr h'"
  shows "heap_ok h'"
proof (cases "signals h a")
  case None
  with assms(2) show ?thesis by (simp add: signal_destroy_dead)
next
  case (Some sg)
  with assms signal_destroy_alive [OF assms(1) Some] heap_ok_destroyed [OF assms(1) Some]
  show ?thesis by simp
qed

lemma connect_cases:
  assumes "connect a slot h = Inr (c, h')"
  obtains (first) sg where "signals h a = Some sg" and "shared_disconnector sg = None"
      and "c = \<lparr>weak_disconnector = Some (length (blocks h)), index = length (slots sg)\<rparr>"
      and "h' = h\<lparr>signals := (signals h)(a \<mapsto> sg\<lparr>slots := slots sg @ [slot],
                                                    disconnector_ptr := Some a,
                                                    shared_disconnector := Some (length (blocks h))\<rparr>),
                  blocks := blocks h @ [\<lparr>strong = 1, pointee = a\<rparr>]\<rparr>"
  | (later) sg cb where "signals h a = Some sg" and "shared_disconnector sg = Some cb"
      and "c = \<lparr>weak_disconnector = Some cb, index = length (slots sg)\<rparr>"
      and "h' = h\<lparr>signals := (signals h)(a \<mapsto> sg\<lparr>slots := slots sg @ [slot]\<rparr>)\<rparr>"
proof (cases "signals h a")
  case None
  with assms show ?thesis by (simp add: connect_dead)
next
  case (Some sg)
  show ?thesis
  proof (cases "shared_disconnector sg")
    case None
    have "Inr (c, h') = connect a slot h" using assms by (rule sym)
    also note connect_first [OF Some None, of slot]
    finally show ?thesis using Some None by (intro first) simp_all
  next
    case sh: (Some cb)
    have "Inr (c, h') = connect a slot h" using assms by (rule sym)
    also note connect_later [OF Some sh, of slot]
    finally show ?thesis using Some sh by (intro later) simp_all
  qed
qed

lemma connection_disconnect_blocks:
  assumes "connection_disconnect c h = Inr (c', h')"
  shows "blocks h' = blocks h"
  using assms
proof (cases rule: connection_disconnect_cases)
  case dead
  then show ?thesis by simp
next
  case (live cb)
  then show ?thesis by (simp add: disconnector_call_blocks_same)
qed

lemma connect_blocks:
  assumes "connect a slot h = Inr (c, h')"
  shows "length (blocks h) \<le> length (blocks h')"
    and "n < length (blocks h) \<Longrightarrow> blocks h' ! n = blocks h ! n"
  using assms by (cases rule: connect_cases; simp add: nth_append)+

lemma connect_known:
  assumes "connect a slot h = Inr (c, h')" and "heap_ok h"
  shows "known c h'"
  using assms(1)
proof (cases rule: connect_cases)
  case (first sg)
  then show ?thesis by (simp add: known_def)
next
  case (later sg cb)
  with heap_ok_owner(1) [OF assms(2) later(1,2)] show ?thesis by (simp add: known_def)
qed

lemma destroyed_blocks:
  shows "length (blocks (destroyed a sg h)) = length (blocks h)"
    and "n < length (blocks h) \<Longrightarrow> strong (blocks h ! n) = 0 \<Longrightarrow> strong (blocks (destroyed a sg h) ! n) = 0"
proof -
  show "length (blocks (destroyed a sg h)) = length (blocks h)"
    by (simp add: destroyed_def split: option.splits)
  assume "n < length (blocks h)" and "strong (blocks h ! n) = 0"
  then show "strong (blocks (destroyed a sg h) ! n) = 0"
    by (cases "shared_disconnector sg"; cases "the (shared_disconnector sg) = n")
       (simp_all add: destroyed_def)
qed

text \<open>One step of a client: the invariant, the control blocks, the dead ones.\<close>

lemma client_step_blocks:
  assumes ok: "heap_ok h" and step: "client_step x (cs, h) = Inr (cs', h')"
  shows "length (blocks h) \<le> length (blocks h')"
    and "n < length (blocks h) \<Longrightarrow> strong (blocks h ! n) = 0 \<Longrightarrow> strong (blocks h' ! n) = 0"
proof -
  have "length (blocks h) \<le> length (blocks h') \<and>
        (n < length (blocks h) \<longrightarrow> strong (blocks h ! n) = 0 \<longrightarrow> strong (blocks h' ! n) = 0)"
  proof (cases x)
    case (Construct a)
    with step have "h' = h \<or> h' = signal_construct a h" by (auto split: if_splits)
    then show ?thesis by (auto simp: signal_construct_def)
  next
    case (Connect a slot)
    with step obtain c where "connect a slot h = Inr (c, h')"
      by (auto split: sum.splits)
    from connect_blocks [OF this] show ?thesis by simp
  next
    case (Disconnect k)
    show ?thesis
    proof (cases "k < length cs")
      case True
      with step Disconnect obtain c' where "connection_disconnect (cs ! k) h = Inr (c', h')"
        by (auto split: sum.splits)
      from connection_disconnect_blocks [OF this] show ?thesis by simp
    next
      case False
      with step Disconnect show ?thesis by simp
    qed
  next
    case (Move_assign k j)
    with step have "h' = h" by (auto split: if_splits prod.splits)
    then show ?thesis by simp
  next
    case (Destroy a)
    with step have des: "signal_destroy a h = Inr h'" by (auto split: sum.splits)
    show ?thesis
    proof (cases "signals h a")
      case None
      with des show ?thesis by (simp add: signal_destroy_dead)
    next
      case (Some sg)
      with des signal_destroy_alive [OF ok Some] have "h' = destroyed a sg h" by simp
      then show ?thesis by (simp add: destroyed_blocks)
    qed
  qed
  then show "length (blocks h) \<le> length (blocks h')"
    and "n < length (blocks h) \<Longrightarrow> strong (blocks h ! n) = 0 \<Longrightarrow> strong (blocks h' ! n) = 0"
    by simp_all
qed

lemma client_step_heap_ok:
  assumes ok: "heap_ok h" and step: "client_step x (cs, h) = Inr (cs', h')"
  shows "heap_ok h'"
proof (cases x)
  case (Construct a)
  show ?thesis
  proof (cases "signals h a = None")
    case True
    with step Construct heap_ok_construct [OF ok True] show ?thesis by simp
  next
    case False
    with step Construct ok show ?thesis by simp
  qed
next
  case (Connect a slot)
  with step obtain c where "connect a slot h = Inr (c, h')"
    by (auto split: sum.splits)
  from heap_ok_connect [OF ok this] show ?thesis .
next
  case (Disconnect k)
  show ?thesis
  proof (cases "k < length cs")
    case True
    with step Disconnect obtain c' where "connection_disconnect (cs ! k) h = Inr (c', h')"
      by (auto split: sum.splits)
    from heap_ok_connection_disconnect [OF ok this] show ?thesis .
  next
    case False
    with step Disconnect ok show ?thesis by simp
  qed
next
  case (Move_assign k j)
  with step have "h' = h" by (auto split: if_splits prod.splits)
  with ok show ?thesis by simp
next
  case (Destroy a)
  with step have "signal_destroy a h = Inr h'" by (auto split: sum.splits)
  from heap_ok_signal_destroy [OF ok this] show ?thesis .
qed

lemma known_mono:
  "known c h \<Longrightarrow> length (blocks h) \<le> length (blocks h') \<Longrightarrow> known c h'"
  by (cases "weak_disconnector c") (simp_all add: known_def)

lemma known_reset [simp]: "known (c\<lparr>weak_disconnector := None\<rparr>) h"
  by (simp add: known_def)

lemma client_step_ok:
  assumes inv: "client_ok (cs, h)" and step: "client_step x (cs, h) = Inr (cs', h')"
  shows "client_ok (cs', h')"
proof -
  from inv have ok: "heap_ok h" and kn: "\<And>c. c \<in> set cs \<Longrightarrow> known c h"
    by (simp_all add: client_ok_def)
  have ok': "heap_ok h'"
    using ok step by (rule client_step_heap_ok)
  have mono: "length (blocks h) \<le> length (blocks h')"
    using ok step by (rule client_step_blocks(1))
  have old: "known c h'" if "c \<in> set cs" for c
    using kn [OF that] mono by (rule known_mono)
  have "known c h'" if c: "c \<in> set cs'" for c
  proof (cases x)
    case (Construct a)
    with step have "cs' = cs" by (auto split: if_splits)
    with c old show ?thesis by simp
  next
    case (Connect a slot)
    with step obtain c0 where con: "connect a slot h = Inr (c0, h')" and cs': "cs' = cs @ [c0]"
      by (auto split: sum.splits)
    from c cs' have "c \<in> set cs \<or> c = c0" by auto
    with old connect_known [OF con ok] show ?thesis by blast
  next
    case (Disconnect k)
    show ?thesis
    proof (cases "k < length cs")
      case True
      with step Disconnect obtain c' where dis: "connection_disconnect (cs ! k) h = Inr (c', h')"
        and cs': "cs' = cs[k := c']"
        by (auto split: sum.splits)
      from dis have c': "c' = (cs ! k)\<lparr>weak_disconnector := None\<rparr>"
        by (cases rule: connection_disconnect_cases) simp_all
      from c cs' have "c \<in> insert c' (set cs)"
        using set_update_subset_insert by fastforce
      with old c' show ?thesis by auto
    next
      case False
      with step Disconnect have "cs' = cs" by simp
      with c old show ?thesis by simp
    qed
  next
    case (Move_assign k j)
    show ?thesis
    proof (cases "k < length cs \<and> j < length cs \<and> k \<noteq> j")
      case True
      let ?t = "(cs ! j)\<lparr>weak_disconnector := weak_disconnector (cs ! k), index := index (cs ! k)\<rparr>"
      let ?o = "(cs ! k)\<lparr>weak_disconnector := None\<rparr>"
      from True step Move_assign have cs': "cs' = cs[j := ?t, k := ?o]" and h': "h' = h"
        by (simp_all add: move_assign_def)
      from c cs' have "c \<in> insert ?o (set (cs[j := ?t]))"
        using set_update_subset_insert by fastforce
      then have "c = ?o \<or> c = ?t \<or> c \<in> set cs"
        using set_update_subset_insert by fastforce
      moreover have "known ?t h'"
        using old [of "cs ! k"] True by (simp add: known_def)
      ultimately show ?thesis using old by auto
    next
      case False
      with step Move_assign have "cs' = cs" by auto
      with c old show ?thesis by simp
    qed
  next
    case (Destroy a)
    with step have "cs' = cs" by (auto split: sum.splits)
    with c old show ?thesis by simp
  qed
  with ok' show ?thesis by (simp add: client_ok_def)
qed

lemma client_ok_initial: "client_ok ([], empty_heap)"
  by (simp add: client_ok_def heap_ok_empty)

lemma run_client_ok:
  assumes "client_ok st" and "run_client xs st = Inr st'"
  shows "client_ok st'"
  using assms
proof (induction xs arbitrary: st)
  case Nil
  then show ?case by simp
next
  case (Cons x xs)
  from Cons.prems(2) obtain st1 where step: "client_step x st = Inr st1"
    and rest: "run_client xs st1 = Inr st'"
    by (auto split: sum.splits)
  obtain cs h where st: "st = (cs, h)" by (cases st)
  obtain cs1 h1 where st1: "st1 = (cs1, h1)" by (cases st1)
  from client_step_ok [of cs h x cs1 h1] Cons.prems(1) step st st1
  have "client_ok st1" by simp
  from Cons.IH [OF this rest] show ?case .
qed

lemma run_client_dead_stays_dead:
  assumes "heap_ok h" and "run_client xs (cs, h) = Inr (cs', h')"
    and "n < length (blocks h)" and "strong (blocks h ! n) = 0"
  shows "n < length (blocks h') \<and> strong (blocks h' ! n) = 0"
  using assms
proof (induction xs arbitrary: cs h)
  case Nil
  then show ?case by simp
next
  case (Cons x xs)
  from Cons.prems(2) obtain cs1 h1 where step: "client_step x (cs, h) = Inr (cs1, h1)"
    and rest: "run_client xs (cs1, h1) = Inr (cs', h')"
    by (auto split: sum.splits)
  have ok1: "heap_ok h1"
    using Cons.prems(1) step by (rule client_step_heap_ok)
  have "n < length (blocks h1)"
    using client_step_blocks(1) [OF Cons.prems(1) step] Cons.prems(3) by simp
  moreover have "strong (blocks h1 ! n) = 0"
    using Cons.prems(1) step Cons.prems(3,4) by (rule client_step_blocks(2))
  ultimately show ?case
    using Cons.IH [OF ok1 rest] by simp
qed

lemma not_connected_iff:
  "known c h \<Longrightarrow>
   \<not> connected c h \<longleftrightarrow>
     (case weak_disconnector c of None \<Rightarrow> True | Some cb \<Rightarrow> strong (blocks h ! cb) = 0)"
  by (cases "weak_disconnector c") (simp_all add: connected_def known_def expired_Some)

lemma stays_disconnected:
  assumes ok: "heap_ok h" and kn: "known c h" and dis: "\<not> connected c h"
    and run: "run_client xs (cs, h) = Inr (cs', h')"
  shows "\<not> connected c h'"
proof (cases "weak_disconnector c")
  case None
  then show ?thesis by (simp add: connected_def)
next
  case (Some cb)
  with kn dis have "cb < length (blocks h)" and "strong (blocks h ! cb) = 0"
    by (simp_all add: known_def connected_def expired_Some)
  from run_client_dead_stays_dead [OF ok run this] Some show ?thesis
    by (simp add: connected_def expired_Some)
qed

section \<open>Liveness of connections\<close>

lemma connect_alive_connected:
  assumes ok: "heap_ok h" and alive: "signals h a \<noteq> None"
  shows "\<exists>c h'. connect a slot h = Inr (c, h') \<and> connected c h'"
proof -
  from alive obtain sg where sg: "signals h a = Some sg" by blast
  show ?thesis
  proof (cases "shared_disconnector sg")
    case None
    from connect_first [OF sg None, of slot] show ?thesis
      by (simp add: connected_def expired_Some)
  next
    case (Some cb)
    from heap_ok_owner(1,2) [OF ok sg Some] connect_later [OF sg Some, of slot] show ?thesis
      by (simp add: connected_def expired_Some)
  qed
qed

lemma destroy_disconnects_owned:
  assumes ok: "heap_ok h" and sg: "signals h a = Some sg"
    and kn: "known c h" and w: "weak_disconnector c = Some cb"
    and own: "pointee (blocks h ! cb) = a"
  shows "\<not> connected c (destroyed a sg h)"
proof -
  from kn w have lt: "cb < length (blocks h)" by (simp add: known_def)
  have "strong (blocks (destroyed a sg h) ! cb) = 0"
  proof (cases "strong (blocks h ! cb) = 0")
    case True
    with lt show ?thesis by (rule destroyed_blocks(2))
  next
    case False
    then have "0 < strong (blocks h ! cb)" by simp
    from heap_ok_block [OF ok lt this] own sg have "shared_disconnector sg = Some cb" by auto
    with lt show ?thesis by (simp add: destroyed_def)
  qed
  with w show ?thesis by (simp add: connected_def expired_Some)
qed

text \<open>
  C5. In every state a client can reach, whatever the order of its earlier operations:
  \<open>connect\<close> on a live signal returns a connection that reports \<open>connected()\<close>; after
  \<open>disconnect()\<close> the connection reports false, in every heap; the destructor of a live
  signal returns, and every connection to that signal reports false afterwards; a connection
  that reports false keeps doing so whatever the client does next; and a default-constructed
  connection reports false and its \<open>disconnect()\<close> changes nothing.
\<close>

theorem connected_weak_liveness:
  fixes h :: "'f heap"
  assumes run: "run_client ops ([], empty_heap) = Inr (cs, h)"
  shows "(\<forall>a slot. signals h a \<noteq> None \<longrightarrow>
            (\<exists>c h'. connect a slot h = Inr (c, h') \<and> connected c h'))
       \<and> (\<forall>k c' h'. k < length cs \<and> connection_disconnect (cs ! k) h = Inr (c', h') \<longrightarrow>
            (\<forall>h2 :: 'f heap. \<not> connected c' h2))
       \<and> (\<forall>a. signals h a \<noteq> None \<longrightarrow>
            (\<exists>h'. signal_destroy a h = Inr h' \<and>
               (\<forall>k cb. k < length cs \<and> weak_disconnector (cs ! k) = Some cb \<and>
                        pointee (blocks h ! cb) = a \<longrightarrow> \<not> connected (cs ! k) h')))
       \<and> (\<forall>k more cs' h'. k < length cs \<and> \<not> connected (cs ! k) h \<and>
                           run_client more (cs, h) = Inr (cs', h') \<longrightarrow> \<not> connected (cs ! k) h')
       \<and> \<not> connected default_connection h
       \<and> connection_disconnect default_connection h = Inr (default_connection, h)"
proof -
  from run_client_ok [OF client_ok_initial run]
  have ok: "heap_ok h" and kn: "\<And>k. k < length cs \<Longrightarrow> known (cs ! k) h"
    by (simp_all add: client_ok_def)
  have after_connect: "\<forall>a slot. signals h a \<noteq> None \<longrightarrow>
          (\<exists>c h'. connect a slot h = Inr (c, h') \<and> connected c h')"
    using connect_alive_connected [OF ok] by blast
  have after_disconnect: "\<forall>k c' h'. k < length cs \<and> connection_disconnect (cs ! k) h = Inr (c', h') \<longrightarrow>
          (\<forall>h2 :: 'f heap. \<not> connected c' h2)"
  proof (intro allI impI, elim conjE)
    fix k c' and h' h2 :: "'f heap"
    assume "connection_disconnect (cs ! k) h = Inr (c', h')"
    then have "weak_disconnector c' = None"
      by (cases rule: connection_disconnect_cases) simp_all
    then show "\<not> connected c' h2" by (simp add: connected_def)
  qed
  have after_destroy: "\<forall>a. signals h a \<noteq> None \<longrightarrow>
          (\<exists>h'. signal_destroy a h = Inr h' \<and>
             (\<forall>k cb. k < length cs \<and> weak_disconnector (cs ! k) = Some cb \<and>
                      pointee (blocks h ! cb) = a \<longrightarrow> \<not> connected (cs ! k) h'))"
  proof (intro allI impI)
    fix a
    assume "signals h a \<noteq> None"
    then obtain sg where sg: "signals h a = Some sg" by blast
    have "signal_destroy a h = Inr (destroyed a sg h)"
      using ok sg by (rule signal_destroy_alive)
    moreover have "\<forall>k cb. k < length cs \<and> weak_disconnector (cs ! k) = Some cb \<and>
                      pointee (blocks h ! cb) = a \<longrightarrow> \<not> connected (cs ! k) (destroyed a sg h)"
      using destroy_disconnects_owned [OF ok sg] kn by blast
    ultimately show "\<exists>h'. signal_destroy a h = Inr h' \<and>
             (\<forall>k cb. k < length cs \<and> weak_disconnector (cs ! k) = Some cb \<and>
                      pointee (blocks h ! cb) = a \<longrightarrow> \<not> connected (cs ! k) h')"
      by blast
  qed
  have persists: "\<forall>k more cs' h'. k < length cs \<and> \<not> connected (cs ! k) h \<and>
          run_client more (cs, h) = Inr (cs', h') \<longrightarrow> \<not> connected (cs ! k) h'"
    using stays_disconnected [OF ok] kn by blast
  have default: "\<not> connected default_connection h"
    "connection_disconnect default_connection h = Inr (default_connection, h)"
    by (simp_all add: connected_def default_connection_def connection_disconnect_expired)
  from after_connect after_disconnect after_destroy persists default
  show ?thesis by (intro conjI)
qed

section \<open>Disconnecting, moving and scoping connections\<close>

text \<open>
  C4. Whenever a call of \<open>connection::disconnect()\<close> returns, it has locked the weak
  pointer, called the disconnector with the stored index if the signal was still alive (on a
  well-formed heap that is \<open>signal_type::disconnect\<close> on the owning signal, and nothing
  else changes), left the heap alone if it was not, and cleared the weak pointer either way.
  Every later call on the same connection changes no heap: twice is the same as once.
\<close>

theorem connection_disconnect_idempotent:
  fixes h :: "'f heap"
  assumes first: "connection_disconnect c h = Inr (c1, h1)"
  shows "c1 = c\<lparr>weak_disconnector := None\<rparr>
       \<and> (expired (weak_disconnector c) h \<longrightarrow> h1 = h)
       \<and> (\<forall>cb. weak_disconnector c = Some cb \<and> \<not> expired (Some cb) h \<longrightarrow>
            disconnector_call (pointee (blocks h ! cb)) (index c) h = Inr h1)
       \<and> (\<forall>cb. heap_ok h \<and> weak_disconnector c = Some cb \<and> \<not> expired (Some cb) h \<longrightarrow>
            (\<exists>sg sg'. signals h (pointee (blocks h ! cb)) = Some sg \<and>
                       signal_disconnect (index c) sg = Inr sg' \<and>
                       h1 = h\<lparr>signals := (signals h)(pointee (blocks h ! cb) \<mapsto> sg')\<rparr>))
       \<and> connection_disconnect c1 h1 = Inr (c1, h1)
       \<and> (\<forall>h2 :: 'f heap. connection_disconnect c1 h2 = Inr (c1, h2))"
proof -
  have c1: "c1 = c\<lparr>weak_disconnector := None\<rparr>"
    using first by (cases rule: connection_disconnect_cases) simp_all
  have dead: "expired (weak_disconnector c) h \<longrightarrow> h1 = h"
    using first by (cases rule: connection_disconnect_cases) simp_all
  have call: "disconnector_call (pointee (blocks h ! cb)) (index c) h = Inr h1"
    if "weak_disconnector c = Some cb" and "\<not> expired (Some cb) h" for cb
    using first that by (cases rule: connection_disconnect_cases) simp_all
  have sig: "\<exists>sg sg'. signals h (pointee (blocks h ! cb)) = Some sg \<and>
                       signal_disconnect (index c) sg = Inr sg' \<and>
                       h1 = h\<lparr>signals := (signals h)(pointee (blocks h ! cb) \<mapsto> sg')\<rparr>"
    if ok: "heap_ok h" and w: "weak_disconnector c = Some cb" and live: "\<not> expired (Some cb) h" for cb
  proof -
    let ?a = "pointee (blocks h ! cb)"
    from live have lt: "cb < length (blocks h)" and pos: "0 < strong (blocks h ! cb)"
      by (simp_all add: expired_Some)
    from heap_ok_block [OF ok lt pos] obtain sg where sg: "signals h ?a = Some sg"
      and sh: "shared_disconnector sg = Some cb" by blast
    from heap_ok_owner(4) [OF ok sg sh] have ptr: "disconnector_ptr sg = Some ?a" .
    from call [OF w live] sg ptr
    have "(case signal_disconnect (index c) sg of
             Inl e \<Rightarrow> Inl e
           | Inr sp' \<Rightarrow> Inr (h\<lparr>signals := (signals h)(?a \<mapsto> sp')\<rparr>)) = Inr h1"
      by (simp add: disconnector_call_def)
    then obtain sg' where "signal_disconnect (index c) sg = Inr sg'"
      and "h1 = h\<lparr>signals := (signals h)(?a \<mapsto> sg')\<rparr>"
      by (cases "signal_disconnect (index c) sg") simp_all
    with sg show ?thesis by blast
  qed
  have again: "connection_disconnect c1 h2 = Inr (c1, h2)" for h2 :: "'f heap"
    using c1 connection_disconnect_expired [of c1 h2] by simp
  from c1 dead call sig again show ?thesis by blast
qed

text \<open>
  C10. After a move construction or a move assignment from \<open>c\<close>, the moved-from
  connection reports \<open>connected() = false\<close> and its \<open>disconnect()\<close> changes no heap,
  while the target has the weak pointer and the index that \<open>c\<close> had: it is connected
  exactly if \<open>c\<close> was, and disconnecting it does to the heap what disconnecting \<open>c\<close>
  would have done.
\<close>

theorem moved_from_connection_disconnected:
  fixes h :: "'f heap"
  shows "(case move_construct c of (target, source) \<Rightarrow>
            \<not> connected source h \<and> connection_disconnect source h = Inr (source, h)
          \<and> weak_disconnector target = weak_disconnector c \<and> index target = index c
          \<and> connected target h = connected c h
          \<and> map_sum id snd (connection_disconnect target h) =
              map_sum id snd (connection_disconnect c h))
       \<and> (case move_assign this c of (target, source) \<Rightarrow>
            \<not> connected source h \<and> connection_disconnect source h = Inr (source, h)
          \<and> weak_disconnector target = weak_disconnector c \<and> index target = index c
          \<and> connected target h = connected c h
          \<and> map_sum id snd (connection_disconnect target h) =
              map_sum id snd (connection_disconnect c h))"
proof -
  have same: "map_sum id snd (connection_disconnect t h) = map_sum id snd (connection_disconnect c h)"
    if "weak_disconnector t = weak_disconnector c" and "index t = index c" for t
    using that by (simp add: connection_disconnect_def split: option.splits sum.splits)
  have src: "\<not> connected (c\<lparr>weak_disconnector := None\<rparr>) h"
    "connection_disconnect (c\<lparr>weak_disconnector := None\<rparr>) h = Inr (c\<lparr>weak_disconnector := None\<rparr>, h)"
    using connection_disconnect_expired [of "c\<lparr>weak_disconnector := None\<rparr>" h]
    by (simp_all add: connected_def)
  show ?thesis
    using src same [of "\<lparr>weak_disconnector = weak_disconnector c, index = index c\<rparr>"]
      same [of "this\<lparr>weak_disconnector := weak_disconnector c, index := index c\<rparr>"]
    by (simp add: move_construct_def move_assign_def connected_def)
qed

text \<open>
  C9. The destructor of a scoped connection does to the heap what one \<open>disconnect()\<close>
  of the held connection does; \<open>reset(c)\<close> does the same and then holds \<open>c\<close>, leaving
  its argument moved-from; \<open>release()\<close> returns the held connection as it is, touches no
  heap, and leaves a default connection behind, so that destroying the scoped connection
  afterwards changes nothing and the released connection is as connected as it was.
\<close>

theorem scoped_connection_raii:
  fixes h :: "'f heap"
  shows "scoped_destroy sc h = map_sum id snd (connection_disconnect (scoped_conn sc) h)
       \<and> scoped_reset sc c h =
           (case connection_disconnect (scoped_conn sc) h of
              Inl e \<Rightarrow> Inl e
            | Inr (c', h') \<Rightarrow> Inr (\<lparr>scoped_conn = c\<rparr>, c\<lparr>weak_disconnector := None\<rparr>, h'))
       \<and> scoped_release sc = (scoped_conn sc, \<lparr>scoped_conn = default_connection\<rparr>)
       \<and> scoped_destroy (snd (scoped_release sc)) h = Inr h
       \<and> connected (fst (scoped_release sc)) h = connected (scoped_conn sc) h"
proof -
  have destroy: "scoped_destroy sc h = map_sum id snd (connection_disconnect (scoped_conn sc) h)"
    by (simp add: scoped_destroy_def scoped_disconnect_def split: sum.splits)
  have reset: "scoped_reset sc c h =
           (case connection_disconnect (scoped_conn sc) h of
              Inl e \<Rightarrow> Inl e
            | Inr (c', h') \<Rightarrow> Inr (\<lparr>scoped_conn = c\<rparr>, c\<lparr>weak_disconnector := None\<rparr>, h'))"
    by (simp add: scoped_reset_def scoped_disconnect_def move_assign_def split: sum.splits)
  have release: "scoped_release sc = (scoped_conn sc, \<lparr>scoped_conn = default_connection\<rparr>)"
    by (simp add: scoped_release_def move_construct_def move_assign_def default_connection_def)
  have later: "scoped_destroy (snd (scoped_release sc)) h = Inr h"
    using connection_disconnect_expired [of default_connection h]
    by (simp add: release scoped_destroy_def scoped_disconnect_def default_connection_def)
  from destroy reset release later show ?thesis by simp
qed

section \<open>Slot indices under connect and disconnect\<close>

lemma signal_disconnect_keeps_live_slots:
  assumes "signal_disconnect j sg = Inr sg'"
  shows "slots sg' = trim_tail ((slots sg)[j := None])"
    and "\<And>i. i < length (slots sg') \<Longrightarrow> slots sg' ! i \<noteq> None \<Longrightarrow>
           i \<noteq> j \<and> i < length (slots sg) \<and> slots sg' ! i = slots sg ! i"
    and "\<And>i. i < length (slots sg) \<Longrightarrow> i \<noteq> j \<Longrightarrow> slots sg ! i \<noteq> None \<Longrightarrow>
           i < length (slots sg') \<and> slots sg' ! i = slots sg ! i"
    and "disconnector_ptr sg' = disconnector_ptr sg"
    and "shared_disconnector sg' = shared_disconnector sg"
proof -
  from assms have j: "j < length (slots sg)"
    and sg': "sg' = sg\<lparr>slots := trim_tail ((slots sg)[j := None])\<rparr>"
    by (simp_all add: signal_disconnect_Inr)
  let ?xs = "(slots sg)[j := None]"
  from sg' show eq: "slots sg' = trim_tail ?xs" by simp
  from sg' show "disconnector_ptr sg' = disconnector_ptr sg"
    and "shared_disconnector sg' = shared_disconnector sg" by simp_all
  {
    fix i
    assume i: "i < length (slots sg')" and live: "slots sg' ! i \<noteq> None"
    from i eq have it: "i < length (trim_tail ?xs)" by simp
    then have nth: "trim_tail ?xs ! i = ?xs ! i" by (rule trim_tail_nth)
    from it trim_tail_length_le [of ?xs] have len: "i < length (slots sg)" by simp
    from live eq nth have "?xs ! i \<noteq> None" by simp
    with len have "i \<noteq> j" by auto
    with len eq nth show "i \<noteq> j \<and> i < length (slots sg) \<and> slots sg' ! i = slots sg ! i"
      by simp
  }
  {
    fix i
    assume i: "i < length (slots sg)" and ne: "i \<noteq> j" and live: "slots sg ! i \<noteq> None"
    then have "i < length ?xs" and "?xs ! i \<noteq> None" by simp_all
    then have "i < length (trim_tail ?xs)" by (rule trim_tail_keeps_live)
    moreover from this have "trim_tail ?xs ! i = ?xs ! i" by (rule trim_tail_nth)
    ultimately show "i < length (slots sg') \<and> slots sg' ! i = slots sg ! i"
      using eq ne by simp
  }
qed

lemma connect_appends:
  assumes "connect a slot h = Inr (c, h')" and "signals h a = Some sg"
  shows "(\<exists>sg'. signals h' a = Some sg' \<and> slots sg' = slots sg @ [slot]) \<and>
         index c = length (slots sg) \<and> (\<forall>b. b \<noteq> a \<longrightarrow> signals h' b = signals h b)"
  using assms(1)
proof (cases rule: connect_cases)
  case (first sg0)
  with assms(2) show ?thesis by simp
next
  case (later sg0 cb)
  with assms(2) show ?thesis by simp
qed

lemma trigger_tombstones_only:
  "\<forall>s \<in> set sl. s = None \<Longrightarrow> trigger_loop sl args w = w"
  by (induction sl) simp_all

lemma trigger_no_live_slot:
  "\<forall>s \<in> set (slots sg). s = None \<Longrightarrow> trigger sg args w = w"
  by (simp add: trigger_def trigger_tombstones_only)

section \<open>Clients that connect callables only\<close>

lemma live_block_signal:
  assumes ok: "heap_ok h" and live: "\<not> expired (Some cb) h"
  shows "\<exists>sg. signals h (pointee (blocks h ! cb)) = Some sg \<and> shared_disconnector sg = Some cb \<and>
              disconnector_ptr sg = Some (pointee (blocks h ! cb))"
proof -
  from live have lt: "cb < length (blocks h)" and pos: "0 < strong (blocks h ! cb)"
    by (simp_all add: expired_Some)
  from heap_ok_block [OF ok lt pos] obtain sg
    where sg: "signals h (pointee (blocks h ! cb)) = Some sg" and sh: "shared_disconnector sg = Some cb"
    by blast
  from heap_ok_owner(4) [OF ok sg sh] sg sh show ?thesis by blast
qed

lemma connection_disconnect_on_signal:
  assumes ok: "heap_ok h" and w: "weak_disconnector c = Some cb" and live: "\<not> expired (Some cb) h"
    and sg: "signals h (pointee (blocks h ! cb)) = Some sg"
  shows "connection_disconnect c h =
           (case signal_disconnect (index c) sg of
              Inl e \<Rightarrow> Inl e
            | Inr sg' \<Rightarrow> Inr (c\<lparr>weak_disconnector := None\<rparr>,
                              h\<lparr>signals := (signals h)(pointee (blocks h ! cb) \<mapsto> sg')\<rparr>))"
proof -
  from live_block_signal [OF ok live] sg
  have ptr: "disconnector_ptr sg = Some (pointee (blocks h ! cb))" by auto
  have "disconnector_call (pointee (blocks h ! cb)) (index c) h =
          (case signal_disconnect (index c) sg of
             Inl e \<Rightarrow> Inl e
           | Inr sg' \<Rightarrow> Inr (h\<lparr>signals := (signals h)(pointee (blocks h ! cb) \<mapsto> sg')\<rparr>))"
    using sg ptr by (simp add: disconnector_call_def)
  then show ?thesis
    using connection_disconnect_live [OF w live]
    by (cases "signal_disconnect (index c) sg") simp_all
qed

lemma connected_iff:
  "connected c h \<longleftrightarrow> (\<exists>cb. weak_disconnector c = Some cb \<and> \<not> expired (Some cb) h)"
  by (cases "weak_disconnector c") (simp_all add: connected_def)

lemma not_connected_reset [simp]: "\<not> connected (c\<lparr>weak_disconnector := None\<rparr>) h"
  by (simp add: connected_def)

lemma addresses_live_slot_reset [simp]: "addresses_live_slot (c\<lparr>weak_disconnector := None\<rparr>) h"
  by (simp add: addresses_live_slot_def)

text \<open>A client whose connections address live slots cannot fail the assertion.\<close>

lemma client_step_no_assertion:
  assumes inv: "client_ok (cs, h)" and idx: "indices_ok (cs, h)"
  shows "client_step x (cs, h) \<noteq> Inl Assertion_failed \<and> client_step x (cs, h) \<noteq> Inl Never_returns"
proof (cases x)
  case (Construct a)
  then show ?thesis by simp
next
  case (Connect a slot)
  show ?thesis
  proof (cases "connect a slot h")
    case (Inl e)
    then have "e = Dangling_access"
      by (cases "signals h a") (auto simp: connect_def Let_def split: option.splits)
    with Inl Connect show ?thesis by simp
  next
    case (Inr r)
    with Connect show ?thesis by (cases r) simp
  qed
next
  case (Disconnect k)
  show ?thesis
  proof (cases "k < length cs")
    case False
    with Disconnect show ?thesis by simp
  next
    case True
    from inv have ok: "heap_ok h" by (simp add: client_ok_def)
    show ?thesis
    proof (cases "connected (cs ! k) h")
      case False
      then have "expired (weak_disconnector (cs ! k)) h" by (simp add: connected_def)
      from connection_disconnect_expired [OF this] True Disconnect show ?thesis by simp
    next
      case conn: True
      from idx True have "addresses_live_slot (cs ! k) h" by (simp add: indices_ok_def)
      with conn obtain cb sg where w: "weak_disconnector (cs ! k) = Some cb"
        and sg: "signals h (pointee (blocks h ! cb)) = Some sg"
        and inb: "index (cs ! k) < length (slots sg)"
        by (auto simp: addresses_live_slot_def)
      from conn w have live: "\<not> expired (Some cb) h" by (simp add: connected_def)
      from inb obtain sg' where "signal_disconnect (index (cs ! k)) sg = Inr sg'"
        by (simp add: signal_disconnect_def)
      with connection_disconnect_on_signal [OF ok w live sg] True Disconnect
      show ?thesis by simp
    qed
  qed
next
  case (Move_assign k j)
  then show ?thesis by (simp split: prod.splits)
next
  case (Destroy a)
  from inv have ok: "heap_ok h" by (simp add: client_ok_def)
  show ?thesis
  proof (cases "signals h a")
    case None
    with Destroy show ?thesis by (simp add: signal_destroy_dead)
  next
    case (Some sg)
    from signal_destroy_alive [OF ok Some] Destroy show ?thesis by simp
  qed
qed

lemma indices_okI:
  assumes "\<And>k. k < length cs \<Longrightarrow> addresses_live_slot (cs ! k) h"
    and "\<And>k j. k < length cs \<Longrightarrow> j < length cs \<Longrightarrow> k \<noteq> j \<Longrightarrow> connected (cs ! k) h \<Longrightarrow>
           weak_disconnector (cs ! k) = weak_disconnector (cs ! j) \<Longrightarrow>
           index (cs ! k) \<noteq> index (cs ! j)"
  shows "indices_ok (cs, h)"
  using assms unfolding indices_ok_def by simp

lemma indices_ok_addr:
  "indices_ok (cs, h) \<Longrightarrow> k < length cs \<Longrightarrow> addresses_live_slot (cs ! k) h"
  unfolding indices_ok_def by simp

lemma indices_ok_apart:
  "indices_ok (cs, h) \<Longrightarrow> k < length cs \<Longrightarrow> j < length cs \<Longrightarrow> k \<noteq> j \<Longrightarrow>
   connected (cs ! k) h \<Longrightarrow> weak_disconnector (cs ! k) = weak_disconnector (cs ! j) \<Longrightarrow>
   index (cs ! k) \<noteq> index (cs ! j)"
  unfolding indices_ok_def by simp

lemma connected_blocks_cong:
  "blocks h' = blocks h \<Longrightarrow> connected c h' = connected c h"
  by (cases "weak_disconnector c") (simp_all add: connected_def expired_def)

lemma addressed_slot:
  assumes "addresses_live_slot c h" and "connected c h"
  obtains cb sg where "weak_disconnector c = Some cb" and "\<not> expired (Some cb) h"
    and "signals h (pointee (blocks h ! cb)) = Some sg"
    and "index c < length (slots sg)" and "slots sg ! index c \<noteq> None"
proof -
  from assms obtain cb sg where w: "weak_disconnector c = Some cb"
    and rest: "signals h (pointee (blocks h ! cb)) = Some sg" "index c < length (slots sg)"
      "slots sg ! index c \<noteq> None"
    unfolding addresses_live_slot_def by blast
  from assms(2) w have "\<not> expired (Some cb) h" by (simp add: connected_def)
  from that [OF w this rest] show ?thesis .
qed

lemma addresses_live_slotI:
  assumes "connected c h \<Longrightarrow>
           \<exists>cb sg. weak_disconnector c = Some cb \<and> signals h (pointee (blocks h ! cb)) = Some sg \<and>
                    index c < length (slots sg) \<and> slots sg ! index c \<noteq> None"
  shows "addresses_live_slot c h"
  using assms unfolding addresses_live_slot_def by blast

lemma indices_ok_construct:
  assumes idx: "indices_ok (cs, h)" and free: "signals h a = None"
  shows "indices_ok (cs, signal_construct a h)"
proof (rule indices_okI)
  let ?h = "signal_construct a h"
  have blocks: "blocks ?h = blocks h" by (simp add: signal_construct_def)
  fix k
  assume k: "k < length cs"
  show "addresses_live_slot (cs ! k) ?h"
  proof (rule addresses_live_slotI)
    assume "connected (cs ! k) ?h"
    then have conn: "connected (cs ! k) h" by (simp add: connected_blocks_cong [OF blocks])
    from indices_ok_addr [OF idx k] conn obtain cb sg
      where w: "weak_disconnector (cs ! k) = Some cb"
        and sg: "signals h (pointee (blocks h ! cb)) = Some sg"
        and inb: "index (cs ! k) < length (slots sg)" "slots sg ! index (cs ! k) \<noteq> None"
      by (rule addressed_slot)
    from sg free have "pointee (blocks h ! cb) \<noteq> a" by auto
    with sg have "signals ?h (pointee (blocks ?h ! cb)) = Some sg"
      by (simp add: signal_construct_def)
    with w inb
    show "\<exists>cb sg. weak_disconnector (cs ! k) = Some cb \<and>
            signals ?h (pointee (blocks ?h ! cb)) = Some sg \<and>
            index (cs ! k) < length (slots sg) \<and> slots sg ! index (cs ! k) \<noteq> None"
      by blast
  qed
next
  let ?h = "signal_construct a h"
  have blocks: "blocks ?h = blocks h" by (simp add: signal_construct_def)
  fix k j
  assume "k < length cs" "j < length cs" "k \<noteq> j" "connected (cs ! k) ?h"
    "weak_disconnector (cs ! k) = weak_disconnector (cs ! j)"
  with indices_ok_apart [OF idx, of k j] show "index (cs ! k) \<noteq> index (cs ! j)"
    by (simp add: connected_blocks_cong [OF blocks])
qed

lemma indices_ok_connect:
  assumes inv: "client_ok (cs, h)" and idx: "indices_ok (cs, h)"
    and con: "connect a (Some f) h = Inr (c, h')"
  shows "indices_ok (cs @ [c], h')"
proof -
  from inv have ok: "heap_ok h" and kn: "\<And>k. k < length cs \<Longrightarrow> known (cs ! k) h"
    by (simp_all add: client_ok_def)
  from con show ?thesis
  proof (cases rule: connect_cases)
    case (first sg)
    let ?n = "length (blocks h)"
    have old_conn: "connected (cs ! k) h' = connected (cs ! k) h" if "k < length cs" for k
      using kn [OF that] first(4)
      by (cases "weak_disconnector (cs ! k)")
         (simp_all add: connected_def expired_Some known_def nth_append)
    have old_weak: "weak_disconnector (cs ! k) \<noteq> Some ?n" if "k < length cs" for k
      using kn [OF that] by (auto simp: known_def)
    have new_addr: "addresses_live_slot c h'"
      using first by (simp add: addresses_live_slot_def)
    have old_addr: "addresses_live_slot (cs ! k) h'" if k: "k < length cs" for k
    proof (rule addresses_live_slotI)
      assume "connected (cs ! k) h'"
      then have conn: "connected (cs ! k) h" by (simp add: old_conn [OF k])
      from indices_ok_addr [OF idx k] conn obtain cb sg0
        where w: "weak_disconnector (cs ! k) = Some cb" and live: "\<not> expired (Some cb) h"
          and sg0: "signals h (pointee (blocks h ! cb)) = Some sg0"
          and inb: "index (cs ! k) < length (slots sg0)" "slots sg0 ! index (cs ! k) \<noteq> None"
        by (rule addressed_slot)
      from live have lt: "cb < ?n" by (simp add: expired_Some)
      from live_block_signal [OF ok live] sg0 have "shared_disconnector sg0 = Some cb" by auto
      with first(1,2) sg0 have "pointee (blocks h ! cb) \<noteq> a" by auto
      with sg0 lt first(4) have "signals h' (pointee (blocks h' ! cb)) = Some sg0"
        by (simp add: nth_append)
      with w inb
      show "\<exists>cb sg. weak_disconnector (cs ! k) = Some cb \<and>
              signals h' (pointee (blocks h' ! cb)) = Some sg \<and>
              index (cs ! k) < length (slots sg) \<and> slots sg ! index (cs ! k) \<noteq> None"
        by blast
    qed
    show ?thesis
    proof (rule indices_okI)
      fix k
      assume "k < length (cs @ [c])"
      then have "k < length cs \<or> k = length cs" by auto
      with old_addr new_addr show "addresses_live_slot ((cs @ [c]) ! k) h'"
        by (auto simp: nth_append)
    next
      fix k j
      assume k: "k < length (cs @ [c])" and j: "j < length (cs @ [c])" and ne: "k \<noteq> j"
        and conn: "connected ((cs @ [c]) ! k) h'"
        and same: "weak_disconnector ((cs @ [c]) ! k) = weak_disconnector ((cs @ [c]) ! j)"
      show "index ((cs @ [c]) ! k) \<noteq> index ((cs @ [c]) ! j)"
      proof (cases "k < length cs \<and> j < length cs")
        case True
        with conn same ne indices_ok_apart [OF idx, of k j] old_conn [of k]
        show ?thesis by (simp add: nth_append)
      next
        case False
        with k j ne consider "k = length cs" "j < length cs" | "j = length cs" "k < length cs"
          by fastforce
        then show ?thesis
        proof cases
          case 1
          with same first(3) have "weak_disconnector (cs ! j) = Some ?n"
            by (simp add: nth_append)
          with old_weak [OF 1(2)] show ?thesis by simp
        next
          case 2
          with same first(3) have "weak_disconnector (cs ! k) = Some ?n"
            by (simp add: nth_append)
          with old_weak [OF 2(2)] show ?thesis by simp
        qed
      qed
    qed
  next
    case (later sg cb0)
    have blocks: "blocks h' = blocks h" using later(4) by simp
    from heap_ok_owner [OF ok later(1,2)]
    have cb0: "cb0 < length (blocks h)" "strong (blocks h ! cb0) = 1" "pointee (blocks h ! cb0) = a"
      by simp_all
    have new_addr: "addresses_live_slot c h'"
      using later cb0 by (simp add: addresses_live_slot_def)
    have old_addr: "addresses_live_slot (cs ! k) h'" if k: "k < length cs" for k
    proof (rule addresses_live_slotI)
      assume "connected (cs ! k) h'"
      then have conn: "connected (cs ! k) h" by (simp add: connected_blocks_cong [OF blocks])
      from indices_ok_addr [OF idx k] conn obtain cb sg0
        where w: "weak_disconnector (cs ! k) = Some cb"
          and sg0: "signals h (pointee (blocks h ! cb)) = Some sg0"
          and inb: "index (cs ! k) < length (slots sg0)" "slots sg0 ! index (cs ! k) \<noteq> None"
        by (rule addressed_slot)
      show "\<exists>cb sg. weak_disconnector (cs ! k) = Some cb \<and>
              signals h' (pointee (blocks h' ! cb)) = Some sg \<and>
              index (cs ! k) < length (slots sg) \<and> slots sg ! index (cs ! k) \<noteq> None"
      proof (cases "pointee (blocks h ! cb) = a")
        case True
        with sg0 later(1) have "sg0 = sg" by simp
        with True inb later(4) w show ?thesis by (auto simp: nth_append)
      next
        case False
        with sg0 later(4) have "signals h' (pointee (blocks h' ! cb)) = Some sg0" by simp
        with w inb show ?thesis by blast
      qed
    qed
    have old_below: "index (cs ! k) < length (slots sg)"
      if k: "k < length cs" and conn: "connected (cs ! k) h"
        and w: "weak_disconnector (cs ! k) = Some cb0" for k
    proof -
      from indices_ok_addr [OF idx k] conn obtain cb sg0
        where "weak_disconnector (cs ! k) = Some cb"
          and "signals h (pointee (blocks h ! cb)) = Some sg0"
          and "index (cs ! k) < length (slots sg0)"
        by (rule addressed_slot)
      with w cb0(3) later(1) show ?thesis by simp
    qed
    have c_conn: "connected c h"
      using later(3) cb0 by (simp add: connected_def expired_Some)
    show ?thesis
    proof (rule indices_okI)
      fix k
      assume "k < length (cs @ [c])"
      then have "k < length cs \<or> k = length cs" by auto
      with old_addr new_addr show "addresses_live_slot ((cs @ [c]) ! k) h'"
        by (auto simp: nth_append)
    next
      fix k j
      assume k: "k < length (cs @ [c])" and j: "j < length (cs @ [c])" and ne: "k \<noteq> j"
        and conn: "connected ((cs @ [c]) ! k) h'"
        and same: "weak_disconnector ((cs @ [c]) ! k) = weak_disconnector ((cs @ [c]) ! j)"
      from conn have conn': "connected ((cs @ [c]) ! k) h"
        by (simp add: connected_blocks_cong [OF blocks])
      show "index ((cs @ [c]) ! k) \<noteq> index ((cs @ [c]) ! j)"
      proof (cases "k < length cs \<and> j < length cs")
        case True
        with conn' same ne indices_ok_apart [OF idx, of k j]
        show ?thesis by (simp add: nth_append)
      next
        case False
        with k j ne consider "k = length cs" "j < length cs" | "j = length cs" "k < length cs"
          by fastforce
        then show ?thesis
        proof cases
          case 1
          with same later(3) have w: "weak_disconnector (cs ! j) = Some cb0"
            by (simp add: nth_append)
          with cb0 have "connected (cs ! j) h" by (simp add: connected_def expired_Some)
          from old_below [OF 1(2) this w] 1 later(3) show ?thesis
            by (simp add: nth_append)
        next
          case 2
          with same later(3) have w: "weak_disconnector (cs ! k) = Some cb0"
            by (simp add: nth_append)
          from conn' 2 have "connected (cs ! k) h" by (simp add: nth_append)
          from old_below [OF 2(2) this w] 2 later(3) show ?thesis
            by (simp add: nth_append)
        qed
      qed
    qed
  qed
qed

lemma indices_ok_update_reset:
  assumes idx: "indices_ok (cs, h)" and k: "k < length cs" and blocks: "blocks h' = blocks h"
    and addr: "\<And>m. m < length cs \<Longrightarrow> m \<noteq> k \<Longrightarrow> connected (cs ! m) h \<Longrightarrow>
                 addresses_live_slot (cs ! m) h'"
  shows "indices_ok (cs[k := (cs ! k)\<lparr>weak_disconnector := None\<rparr>], h')"
proof (rule indices_okI)
  let ?cs = "cs[k := (cs ! k)\<lparr>weak_disconnector := None\<rparr>]"
  fix m
  assume m: "m < length ?cs"
  show "addresses_live_slot (?cs ! m) h'"
  proof (cases "m = k")
    case True
    with k show ?thesis by simp
  next
    case False
    show ?thesis
    proof (cases "connected (cs ! m) h")
      case True
      with addr [of m] m False show ?thesis by simp
    next
      case no: False
      then have "\<not> connected (cs ! m) h'" by (simp add: connected_blocks_cong [OF blocks])
      with False show ?thesis by (simp add: addresses_live_slot_def)
    qed
  qed
next
  let ?cs = "cs[k := (cs ! k)\<lparr>weak_disconnector := None\<rparr>]"
  fix m j
  assume m: "m < length ?cs" and j: "j < length ?cs" and ne: "m \<noteq> j"
    and conn: "connected (?cs ! m) h'"
    and same: "weak_disconnector (?cs ! m) = weak_disconnector (?cs ! j)"
  from conn k have mk: "m \<noteq> k" by (cases "m = k") simp_all
  with conn have conn': "connected (cs ! m) h"
    by (simp add: connected_blocks_cong [OF blocks])
  have jk: "j \<noteq> k"
  proof
    assume "j = k"
    with same mk k have "weak_disconnector (cs ! m) = None" by simp
    with conn' show False by (simp add: connected_def)
  qed
  from mk jk same have "weak_disconnector (cs ! m) = weak_disconnector (cs ! j)" by simp
  from indices_ok_apart [OF idx _ _ ne conn' this] m j mk jk
  show "index (?cs ! m) \<noteq> index (?cs ! j)" by simp
qed

lemma indices_ok_disconnect:
  assumes inv: "client_ok (cs, h)" and idx: "indices_ok (cs, h)" and k: "k < length cs"
    and dis: "connection_disconnect (cs ! k) h = Inr (c', h')"
  shows "indices_ok (cs[k := c'], h')"
proof -
  from inv have ok: "heap_ok h" by (simp add: client_ok_def)
  from dis have c': "c' = (cs ! k)\<lparr>weak_disconnector := None\<rparr>"
    by (cases rule: connection_disconnect_cases) simp_all
  from dis have blocks: "blocks h' = blocks h" by (rule connection_disconnect_blocks)
  have "indices_ok (cs[k := (cs ! k)\<lparr>weak_disconnector := None\<rparr>], h')"
    using idx k blocks
  proof (rule indices_ok_update_reset)
    fix m
    assume m: "m < length cs" and mk: "m \<noteq> k" and conn_m: "connected (cs ! m) h"
    show "addresses_live_slot (cs ! m) h'"
    proof (cases "connected (cs ! k) h")
      case False
      then have "expired (weak_disconnector (cs ! k)) h" by (simp add: connected_def)
      from connection_disconnect_expired [OF this] dis have "h' = h" by simp
      with indices_ok_addr [OF idx m] show ?thesis by simp
    next
      case True
      from indices_ok_addr [OF idx k] True obtain cbk sgk
        where wk: "weak_disconnector (cs ! k) = Some cbk" and livek: "\<not> expired (Some cbk) h"
          and sgk: "signals h (pointee (blocks h ! cbk)) = Some sgk"
        by (rule addressed_slot)
      let ?a = "pointee (blocks h ! cbk)"
      from connection_disconnect_on_signal [OF ok wk livek sgk] dis
      obtain sgk' where sd: "signal_disconnect (index (cs ! k)) sgk = Inr sgk'"
        and h': "h' = h\<lparr>signals := (signals h)(?a \<mapsto> sgk')\<rparr>"
        by (cases "signal_disconnect (index (cs ! k)) sgk") simp_all
      from indices_ok_addr [OF idx m] conn_m obtain cb sg
        where wm: "weak_disconnector (cs ! m) = Some cb" and livem: "\<not> expired (Some cb) h"
          and sg: "signals h (pointee (blocks h ! cb)) = Some sg"
          and inb: "index (cs ! m) < length (slots sg)" "slots sg ! index (cs ! m) \<noteq> None"
        by (rule addressed_slot)
      show ?thesis
      proof (cases "pointee (blocks h ! cb) = ?a")
        case False
        with sg h' have "signals h' (pointee (blocks h' ! cb)) = Some sg" by simp
        with wm inb show ?thesis by (auto simp: addresses_live_slot_def)
      next
        case same: True
        with sg sgk have eq: "sg = sgk" by simp
        from live_block_signal [OF ok livem] sg have "shared_disconnector sg = Some cb" by auto
        moreover from live_block_signal [OF ok livek] sgk
        have "shared_disconnector sgk = Some cbk" by auto
        ultimately have "cb = cbk" using eq by simp
        with wm wk have "weak_disconnector (cs ! m) = weak_disconnector (cs ! k)" by simp
        from indices_ok_apart [OF idx m k mk conn_m this]
        have ne: "index (cs ! m) \<noteq> index (cs ! k)" .
        from signal_disconnect_keeps_live_slots(3) [OF sd, of "index (cs ! m)"] inb eq ne
        have "index (cs ! m) < length (slots sgk')" and "slots sgk' ! index (cs ! m) \<noteq> None"
          by simp_all
        moreover from same h' have "signals h' (pointee (blocks h' ! cb)) = Some sgk'" by simp
        ultimately show ?thesis using wm by (auto simp: addresses_live_slot_def)
      qed
    qed
  qed
  with c' show ?thesis by simp
qed

lemma indices_ok_move_assign:
  assumes idx: "indices_ok (cs, h)" and k: "k < length cs" and j: "j < length cs" and ne: "k \<noteq> j"
  shows "indices_ok (cs[j := (cs ! j)\<lparr>weak_disconnector := weak_disconnector (cs ! k),
                                    index := index (cs ! k)\<rparr>,
                      k := (cs ! k)\<lparr>weak_disconnector := None\<rparr>], h)"
proof -
  have t: "(cs ! j)\<lparr>weak_disconnector := weak_disconnector (cs ! k), index := index (cs ! k)\<rparr> = cs ! k"
    by simp
  let ?cs1 = "cs[j := cs ! k]"
  have one: "indices_ok (?cs1[k := (?cs1 ! k)\<lparr>weak_disconnector := None\<rparr>], h)"
  proof (rule indices_okI)
    let ?cs = "?cs1[k := (?cs1 ! k)\<lparr>weak_disconnector := None\<rparr>]"
    have src: "\<And>m. m < length cs \<Longrightarrow> m \<noteq> k \<Longrightarrow> ?cs ! m = cs ! (if m = j then k else m)"
      using j by simp
    fix m
    assume m: "m < length ?cs"
    show "addresses_live_slot (?cs ! m) h"
    proof (cases "m = k")
      case True
      with k show ?thesis by simp
    next
      case False
      with src [of m] m indices_ok_addr [OF idx, of "if m = j then k else m"] k
      show ?thesis by (cases "m = j") simp_all
    qed
  next
    let ?cs = "?cs1[k := (?cs1 ! k)\<lparr>weak_disconnector := None\<rparr>]"
    have src: "\<And>m. m < length cs \<Longrightarrow> m \<noteq> k \<Longrightarrow> ?cs ! m = cs ! (if m = j then k else m)"
      using j by simp
    fix m n
    assume m: "m < length ?cs" and n: "n < length ?cs" and mn: "m \<noteq> n"
      and conn: "connected (?cs ! m) h"
      and same: "weak_disconnector (?cs ! m) = weak_disconnector (?cs ! n)"
    from conn k have mk: "m \<noteq> k" by (cases "m = k") simp_all
    have nk: "n \<noteq> k"
    proof
      assume "n = k"
      with same k have "weak_disconnector (?cs ! m) = None" by simp
      with conn show False by (simp add: connected_def)
    qed
    let ?m = "if m = j then k else m" and ?n = "if n = j then k else n"
    from m n mk nk src have em: "?cs ! m = cs ! ?m" and en: "?cs ! n = cs ! ?n" by simp_all
    have "?m \<noteq> ?n" using mn mk nk by auto
    moreover have "?m < length cs" "?n < length cs" using m n k by simp_all
    ultimately have "index (cs ! ?m) \<noteq> index (cs ! ?n)"
      using indices_ok_apart [OF idx, of ?m ?n] conn same em en by simp
    with em en show "index (?cs ! m) \<noteq> index (?cs ! n)" by simp
  qed
  have "?cs1 ! k = cs ! k" using ne by simp
  with one have "indices_ok (cs[j := cs ! k, k := (cs ! k)\<lparr>weak_disconnector := None\<rparr>], h)"
    by simp
  then show ?thesis by (simp only: t)
qed

lemma indices_ok_destroy:
  assumes inv: "client_ok (cs, h)" and idx: "indices_ok (cs, h)" and sg: "signals h a = Some sg"
  shows "indices_ok (cs, destroyed a sg h)"
proof -
  let ?h = "destroyed a sg h"
  from inv have ok: "heap_ok h" by (simp add: client_ok_def)
  have still: "connected c h \<and> (\<forall>cb. weak_disconnector c = Some cb \<longrightarrow>
                 shared_disconnector sg \<noteq> Some cb \<and> blocks ?h ! cb = blocks h ! cb)"
    if conn: "connected c ?h" for c
  proof -
    from conn obtain cb where w: "weak_disconnector c = Some cb" and live: "\<not> expired (Some cb) ?h"
      by (auto simp: connected_iff)
    from live have lt: "cb < length (blocks h)" and pos: "0 < strong (blocks ?h ! cb)"
      by (simp_all add: expired_Some destroyed_blocks(1))
    have other: "shared_disconnector sg \<noteq> Some cb"
    proof
      assume "shared_disconnector sg = Some cb"
      with lt have "strong (blocks ?h ! cb) = 0" by (simp add: destroyed_def)
      with pos show False by simp
    qed
    then have same: "blocks ?h ! cb = blocks h ! cb"
      by (cases "shared_disconnector sg") (auto simp: destroyed_def)
    with lt pos w have "connected c h" by (simp add: connected_def expired_Some)
    with w other same show ?thesis by simp
  qed
  show ?thesis
  proof (rule indices_okI)
    fix k
    assume k: "k < length cs"
    show "addresses_live_slot (cs ! k) ?h"
    proof (rule addresses_live_slotI)
      assume conn': "connected (cs ! k) ?h"
      with still have conn: "connected (cs ! k) h" by blast
      from indices_ok_addr [OF idx k] conn obtain cb sg0
        where w: "weak_disconnector (cs ! k) = Some cb" and live: "\<not> expired (Some cb) h"
          and sg0: "signals h (pointee (blocks h ! cb)) = Some sg0"
          and inb: "index (cs ! k) < length (slots sg0)" "slots sg0 ! index (cs ! k) \<noteq> None"
        by (rule addressed_slot)
      from still [OF conn'] w have other: "shared_disconnector sg \<noteq> Some cb"
        and same: "blocks ?h ! cb = blocks h ! cb" by simp_all
      from live_block_signal [OF ok live] sg0 have "shared_disconnector sg0 = Some cb" by auto
      with other sg sg0 have "pointee (blocks h ! cb) \<noteq> a" by auto
      with sg0 same have "signals ?h (pointee (blocks ?h ! cb)) = Some sg0"
        by (simp add: destroyed_def)
      with w inb
      show "\<exists>cb sg. weak_disconnector (cs ! k) = Some cb \<and>
              signals ?h (pointee (blocks ?h ! cb)) = Some sg \<and>
              index (cs ! k) < length (slots sg) \<and> slots sg ! index (cs ! k) \<noteq> None"
        by blast
    qed
  next
    fix k j
    assume "k < length cs" "j < length cs" "k \<noteq> j" "connected (cs ! k) ?h"
      "weak_disconnector (cs ! k) = weak_disconnector (cs ! j)"
    with still [of "cs ! k"] indices_ok_apart [OF idx, of k j]
    show "index (cs ! k) \<noteq> index (cs ! j)" by simp
  qed
qed

lemma client_step_indices_ok:
  assumes inv: "client_ok (cs, h)" and idx: "indices_ok (cs, h)" and call: "connects_callable x"
    and step: "client_step x (cs, h) = Inr (cs', h')"
  shows "indices_ok (cs', h')"
proof (cases x)
  case (Construct a)
  show ?thesis
  proof (cases "signals h a = None")
    case True
    with step Construct indices_ok_construct [OF idx True] show ?thesis by simp
  next
    case False
    with step Construct idx show ?thesis by simp
  qed
next
  case (Connect a slot)
  with call obtain f where f: "slot = Some f" by auto
  from step Connect obtain c where con: "connect a slot h = Inr (c, h')" and cs': "cs' = cs @ [c]"
    by (auto split: sum.splits)
  from indices_ok_connect [OF inv idx con [unfolded f]] cs' show ?thesis by simp
next
  case (Disconnect k)
  show ?thesis
  proof (cases "k < length cs")
    case True
    with step Disconnect obtain c' where dis: "connection_disconnect (cs ! k) h = Inr (c', h')"
      and cs': "cs' = cs[k := c']"
      by (auto split: sum.splits)
    from indices_ok_disconnect [OF inv idx True dis] cs' show ?thesis by simp
  next
    case False
    with step Disconnect idx show ?thesis by simp
  qed
next
  case (Move_assign k j)
  show ?thesis
  proof (cases "k < length cs \<and> j < length cs \<and> k \<noteq> j")
    case True
    with step Move_assign
    have "cs' = cs[j := (cs ! j)\<lparr>weak_disconnector := weak_disconnector (cs ! k),
                                  index := index (cs ! k)\<rparr>,
                   k := (cs ! k)\<lparr>weak_disconnector := None\<rparr>]" and "h' = h"
      by (simp_all add: move_assign_def)
    with indices_ok_move_assign [OF idx, of k j] True show ?thesis by simp
  next
    case False
    with step Move_assign idx show ?thesis by auto
  qed
next
  case (Destroy a)
  from inv have ok: "heap_ok h" by (simp add: client_ok_def)
  from step Destroy have des: "signal_destroy a h = Inr h'" and cs': "cs' = cs"
    by (auto split: sum.splits)
  show ?thesis
  proof (cases "signals h a")
    case None
    with des show ?thesis by (simp add: signal_destroy_dead)
  next
    case (Some sg)
    with des signal_destroy_alive [OF ok Some] have "h' = destroyed a sg h" by simp
    with indices_ok_destroy [OF inv idx Some] cs' show ?thesis by simp
  qed
qed

lemma indices_ok_initial: "indices_ok ([], empty_heap)"
  by (simp add: indices_ok_def)

lemma run_client_callable:
  assumes "list_all connects_callable xs" and "client_ok st" and "indices_ok st"
  shows "run_client xs st \<noteq> Inl Assertion_failed \<and> run_client xs st \<noteq> Inl Never_returns \<and>
         (\<forall>st'. run_client xs st = Inr st' \<longrightarrow> client_ok st' \<and> indices_ok st')"
  using assms
proof (induction xs arbitrary: st)
  case Nil
  then show ?case by simp
next
  case (Cons x xs)
  obtain cs h where st: "st = (cs, h)" by (cases st)
  from Cons.prems(1) have x: "connects_callable x" and xs: "list_all connects_callable xs"
    by simp_all
  from client_step_no_assertion [of cs h x] Cons.prems(2,3) st
  have no: "client_step x st \<noteq> Inl Assertion_failed" "client_step x st \<noteq> Inl Never_returns"
    by simp_all
  show ?case
  proof (cases "client_step x st")
    case (Inl e)
    with no show ?thesis by auto
  next
    case (Inr st1)
    obtain cs1 h1 where st1: "st1 = (cs1, h1)" by (cases st1)
    from Inr st st1 have step: "client_step x (cs, h) = Inr (cs1, h1)" by simp
    have "client_ok st1"
      using client_step_ok [OF _ step] Cons.prems(2) st st1 by simp
    moreover have "indices_ok st1"
      using client_step_indices_ok [OF _ _ x step] Cons.prems(2,3) st st1 by simp
    ultimately show ?thesis
      using Cons.IH [OF xs, of st1] Inr by simp
  qed
qed

lemma callable_clients_pass_assertion:
  "list_all connects_callable xs \<Longrightarrow> run_client xs ([], empty_heap) \<noteq> Inl Assertion_failed"
  using run_client_callable [OF _ client_ok_initial indices_ok_initial] by blast

section \<open>Disconnecting every callable\<close>

lemma plain_op_callable: "plain_op x \<Longrightarrow> connects_callable x"
  by (cases x) simp_all

lemma slots_ownedI:
  assumes "\<And>a sg i. signals h a = Some sg \<Longrightarrow> i < length (slots sg) \<Longrightarrow> slots sg ! i \<noteq> None \<Longrightarrow>
             \<exists>k < length cs. connected (cs ! k) h \<and>
                weak_disconnector (cs ! k) = shared_disconnector sg \<and> index (cs ! k) = i"
  shows "slots_owned (cs, h)"
  unfolding slots_owned_def fst_conv snd_conv using assms by blast

lemma slots_owned_owner:
  assumes "slots_owned (cs, h)" and "signals h a = Some sg" and "i < length (slots sg)"
    and "slots sg ! i \<noteq> None"
  obtains k where "k < length cs" and "connected (cs ! k) h"
    and "weak_disconnector (cs ! k) = shared_disconnector sg" and "index (cs ! k) = i"
  using assms unfolding slots_owned_def fst_conv snd_conv by blast

lemma slots_trimmedI:
  assumes "\<And>a sg. signals h a = Some sg \<Longrightarrow> slots sg \<noteq> [] \<Longrightarrow> last (slots sg) \<noteq> None"
  shows "slots_trimmed h"
  unfolding slots_trimmed_def using assms by blast

lemma slots_trimmedD:
  "slots_trimmed h \<Longrightarrow> signals h a = Some sg \<Longrightarrow> slots sg \<noteq> [] \<Longrightarrow> last (slots sg) \<noteq> None"
  unfolding slots_trimmed_def by blast

lemma slots_trimmed_step:
  assumes ok: "heap_ok h" and tr: "slots_trimmed h" and call: "connects_callable x"
    and step: "client_step x (cs, h) = Inr (cs', h')"
  shows "slots_trimmed h'"
proof (cases x)
  case (Construct a)
  show ?thesis
  proof (cases "signals h a = None")
    case True
    with step Construct have h': "h' = signal_construct a h" by simp
    show ?thesis
    proof (rule slots_trimmedI)
      fix b sg
      assume "signals h' b = Some sg" and ne: "slots sg \<noteq> []"
      with h' have "signals h b = Some sg"
        by (cases "b = a") (auto simp: signal_construct_def default_signal_def)
      from slots_trimmedD [OF tr this ne] show "last (slots sg) \<noteq> None" .
    qed
  next
    case False
    with step Construct tr show ?thesis by simp
  qed
next
  case (Connect a slot)
  with call obtain f where f: "slot = Some f" by auto
  from step Connect obtain c where con: "connect a slot h = Inr (c, h')"
    by (auto split: sum.splits)
  from con obtain sg where sg: "signals h a = Some sg"
    by (cases "signals h a") (simp_all add: connect_dead)
  from connect_appends [OF con sg] obtain sg' where sg': "signals h' a = Some sg'"
    and sl: "slots sg' = slots sg @ [slot]"
    and others: "\<forall>b. b \<noteq> a \<longrightarrow> signals h' b = signals h b" by blast
  show ?thesis
  proof (rule slots_trimmedI)
    fix b s
    assume s: "signals h' b = Some s" and ne: "slots s \<noteq> []"
    show "last (slots s) \<noteq> None"
    proof (cases "b = a")
      case True
      with s sg' sl f show ?thesis by simp
    next
      case False
      with s others have "signals h b = Some s" by simp
      from slots_trimmedD [OF tr this ne] show ?thesis .
    qed
  qed
next
  case (Disconnect k)
  show ?thesis
  proof (cases "k < length cs")
    case False
    with step Disconnect tr show ?thesis by simp
  next
    case True
    with step Disconnect obtain c' where dis: "connection_disconnect (cs ! k) h = Inr (c', h')"
      by (auto split: sum.splits)
    from dis show ?thesis
    proof (cases rule: connection_disconnect_cases)
      case dead
      with tr show ?thesis by simp
    next
      case (live cb)
      from live(4) show ?thesis
      proof (cases rule: disconnector_call_cases)
        case noop
        with tr show ?thesis by simp
      next
        case (cleared p sp)
        show ?thesis
        proof (rule slots_trimmedI)
          fix b s
          assume s: "signals h' b = Some s" and ne: "slots s \<noteq> []"
          show "last (slots s) \<noteq> None"
          proof (cases "b = p")
            case True
            with s cleared(3)
            have "s = sp\<lparr>slots := trim_tail ((slots sp)[index (cs ! k) := None])\<rparr>"
              by simp
            then have "slots s = trim_tail ((slots sp)[index (cs ! k) := None])"
              by simp
            with ne trim_tail_last_live show ?thesis by metis
          next
            case False
            with s cleared(3) have "signals h b = Some s" by simp
            from slots_trimmedD [OF tr this ne] show ?thesis .
          qed
        qed
      qed
    qed
  qed
next
  case (Move_assign k j)
  with step have "h' = h" by (auto split: if_splits prod.splits)
  with tr show ?thesis by simp
next
  case (Destroy a)
  with step have des: "signal_destroy a h = Inr h'" by (auto split: sum.splits)
  show ?thesis
  proof (cases "signals h a")
    case None
    with des show ?thesis by (simp add: signal_destroy_dead)
  next
    case (Some sg)
    with des signal_destroy_alive [OF ok Some] have h': "h' = destroyed a sg h" by simp
    show ?thesis
    proof (rule slots_trimmedI)
      fix b s
      assume "signals h' b = Some s" and ne: "slots s \<noteq> []"
      with h' have "signals h b = Some s"
        by (cases "b = a") (simp_all add: destroyed_def)
      from slots_trimmedD [OF tr this ne] show "last (slots s) \<noteq> None" .
    qed
  qed
qed

lemma slots_owned_step:
  assumes inv: "client_ok (cs, h)" and own: "slots_owned (cs, h)" and plain: "plain_op x"
    and step: "client_step x (cs, h) = Inr (cs', h')"
  shows "slots_owned (cs', h')"
proof -
  from inv have ok: "heap_ok h" by (simp add: client_ok_def)
  show ?thesis
  proof (cases x)
    case (Construct a)
    show ?thesis
    proof (cases "signals h a = None")
      case False
      with step Construct own show ?thesis by simp
    next
      case True
      with step Construct have h': "h' = signal_construct a h" and cs': "cs' = cs" by simp_all
      have blocks: "blocks h' = blocks h" using h' by (simp add: signal_construct_def)
      show ?thesis
      proof (rule slots_ownedI)
        fix b s i
        assume s: "signals h' b = Some s" and i: "i < length (slots s)" "slots s ! i \<noteq> None"
        from s i(1) h' have "signals h b = Some s"
          by (cases "b = a") (auto simp: signal_construct_def default_signal_def)
        from slots_owned_owner [OF own this i] obtain k where "k < length cs"
          "connected (cs ! k) h" "weak_disconnector (cs ! k) = shared_disconnector s"
          "index (cs ! k) = i" .
        with cs' connected_blocks_cong [OF blocks]
        show "\<exists>k<length cs'. connected (cs' ! k) h' \<and>
                weak_disconnector (cs' ! k) = shared_disconnector s \<and> index (cs' ! k) = i"
          by auto
      qed
    qed
  next
    case (Connect a slot)
    with plain obtain f where f: "slot = Some f" by auto
    from step Connect obtain c where con: "connect a slot h = Inr (c, h')" and cs': "cs' = cs @ [c]"
      by (auto split: sum.splits)
    have old_owner: "\<exists>k<length cs'. connected (cs' ! k) h' \<and>
                weak_disconnector (cs' ! k) = w \<and> index (cs' ! k) = i"
      if "k < length cs" "connected (cs ! k) h" "weak_disconnector (cs ! k) = w"
        "index (cs ! k) = i" for k w i
    proof -
      from that(2) obtain cb where w: "weak_disconnector (cs ! k) = Some cb"
        and live: "\<not> expired (Some cb) h" by (auto simp: connected_iff)
      from live have lt: "cb < length (blocks h)" and pos: "0 < strong (blocks h ! cb)"
        by (simp_all add: expired_Some)
      from connect_blocks [OF con] lt pos have "\<not> expired (Some cb) h'"
        by (simp add: expired_Some)
      with w have "connected (cs ! k) h'" by (simp add: connected_def)
      with that cs' show ?thesis by (auto simp: nth_append intro!: exI [of _ k])
    qed
    from con show ?thesis
    proof (cases rule: connect_cases)
      case (first sg)
      have c_conn: "connected c h'" using first by (simp add: connected_def expired_Some)
      show ?thesis
      proof (rule slots_ownedI)
        fix b s i
        assume s: "signals h' b = Some s" and i: "i < length (slots s)" "slots s ! i \<noteq> None"
        show "\<exists>k<length cs'. connected (cs' ! k) h' \<and>
                weak_disconnector (cs' ! k) = shared_disconnector s \<and> index (cs' ! k) = i"
        proof (cases "b = a")
          case False
          with s first(4) have "signals h b = Some s" by simp
          from slots_owned_owner [OF own this i] obtain k where k: "k < length cs"
            "connected (cs ! k) h" "weak_disconnector (cs ! k) = shared_disconnector s"
            "index (cs ! k) = i" .
          from old_owner [OF k] show ?thesis .
        next
          case True
          with s first(4) have sl: "slots s = slots sg @ [slot]"
            and sh: "shared_disconnector s = Some (length (blocks h))" by auto
          have "\<not> i < length (slots sg)"
          proof
            assume lt: "i < length (slots sg)"
            with i(2) sl have "slots sg ! i \<noteq> None" by (simp add: nth_append)
            from slots_owned_owner [OF own first(1) lt this] obtain k
              where "connected (cs ! k) h" "weak_disconnector (cs ! k) = shared_disconnector sg" .
            with first(2) show False by (simp add: connected_def)
          qed
          with i(1) sl have "i = length (slots sg)" by simp
          with c_conn sh first(3) cs' show ?thesis
            by (auto intro!: exI [of _ "length cs"])
        qed
      qed
    next
      case (later sg cb0)
      from heap_ok_owner [OF ok later(1,2)]
      have cb0: "cb0 < length (blocks h)" "strong (blocks h ! cb0) = 1" by simp_all
      have c_conn: "connected c h'"
        using later cb0 by (simp add: connected_def expired_Some)
      show ?thesis
      proof (rule slots_ownedI)
        fix b s i
        assume s: "signals h' b = Some s" and i: "i < length (slots s)" "slots s ! i \<noteq> None"
        show "\<exists>k<length cs'. connected (cs' ! k) h' \<and>
                weak_disconnector (cs' ! k) = shared_disconnector s \<and> index (cs' ! k) = i"
        proof (cases "b = a")
          case False
          with s later(4) have "signals h b = Some s" by simp
          from slots_owned_owner [OF own this i] obtain k where k: "k < length cs"
            "connected (cs ! k) h" "weak_disconnector (cs ! k) = shared_disconnector s"
            "index (cs ! k) = i" .
          from old_owner [OF k] show ?thesis .
        next
          case True
          with s later(4) have sl: "slots s = slots sg @ [slot]"
            and sh: "shared_disconnector s = shared_disconnector sg" by auto
          show ?thesis
          proof (cases "i < length (slots sg)")
            case lt: True
            with i(2) sl have "slots sg ! i \<noteq> None" by (simp add: nth_append)
            from slots_owned_owner [OF own later(1) lt this] obtain k where k: "k < length cs"
              "connected (cs ! k) h" "weak_disconnector (cs ! k) = shared_disconnector sg"
              "index (cs ! k) = i" .
            from old_owner [OF k] sh show ?thesis by simp
          next
            case False
            with i(1) sl have "i = length (slots sg)" by simp
            with c_conn sh later(2,3) cs' show ?thesis
              by (auto intro!: exI [of _ "length cs"])
          qed
        qed
      qed
    qed
  next
    case (Disconnect k)
    show ?thesis
    proof (cases "k < length cs")
      case False
      with step Disconnect own show ?thesis by simp
    next
      case k: True
      with step Disconnect obtain c' where dis: "connection_disconnect (cs ! k) h = Inr (c', h')"
        and cs': "cs' = cs[k := c']"
        by (auto split: sum.splits)
      from dis have blocks: "blocks h' = blocks h" by (rule connection_disconnect_blocks)
      have keep: "\<exists>m<length cs'. connected (cs' ! m) h' \<and>
                weak_disconnector (cs' ! m) = w \<and> index (cs' ! m) = i"
        if "m < length cs" "m \<noteq> k" "connected (cs ! m) h" "weak_disconnector (cs ! m) = w"
          "index (cs ! m) = i" for m w i
      proof -
        from that(1,2) cs' have nth: "cs' ! m = cs ! m" and len: "m < length cs'" by simp_all
        from that(3) have "connected (cs ! m) h'" by (simp add: connected_blocks_cong [OF blocks])
        with nth len that(4,5) show ?thesis by (intro exI [of _ m]) simp
      qed
      show ?thesis
      proof (cases "connected (cs ! k) h")
        case False
        then have "expired (weak_disconnector (cs ! k)) h" by (simp add: connected_def)
        from connection_disconnect_expired [OF this] dis have h': "h' = h" by simp
        show ?thesis
        proof (rule slots_ownedI)
          fix b s i
          assume "signals h' b = Some s" and i: "i < length (slots s)" "slots s ! i \<noteq> None"
          with h' have "signals h b = Some s" by simp
          from slots_owned_owner [OF own this i] obtain m where m: "m < length cs"
            "connected (cs ! m) h" "weak_disconnector (cs ! m) = shared_disconnector s"
            "index (cs ! m) = i" .
          with False have "m \<noteq> k" by auto
          from keep [OF m(1) this m(2,3,4)]
          show "\<exists>k<length cs'. connected (cs' ! k) h' \<and>
                  weak_disconnector (cs' ! k) = shared_disconnector s \<and> index (cs' ! k) = i" .
        qed
      next
        case True
        then obtain cbk where wk: "weak_disconnector (cs ! k) = Some cbk"
          and livek: "\<not> expired (Some cbk) h" by (auto simp: connected_iff)
        let ?a = "pointee (blocks h ! cbk)"
        from live_block_signal [OF ok livek] obtain sgk where sgk: "signals h ?a = Some sgk"
          and shk: "shared_disconnector sgk = Some cbk" by blast
        from connection_disconnect_on_signal [OF ok wk livek sgk] dis
        obtain sgk' where sd: "signal_disconnect (index (cs ! k)) sgk = Inr sgk'"
          and h': "h' = h\<lparr>signals := (signals h)(?a \<mapsto> sgk')\<rparr>"
          by (cases "signal_disconnect (index (cs ! k)) sgk") simp_all
        show ?thesis
        proof (rule slots_ownedI)
          fix b s i
          assume s: "signals h' b = Some s" and i: "i < length (slots s)" "slots s ! i \<noteq> None"
          show "\<exists>k<length cs'. connected (cs' ! k) h' \<and>
                  weak_disconnector (cs' ! k) = shared_disconnector s \<and> index (cs' ! k) = i"
          proof (cases "b = ?a")
            case same: True
            with s h' have eq: "s = sgk'" by simp
            from i eq have i': "i < length (slots sgk')" "slots sgk' ! i \<noteq> None" by simp_all
            from signal_disconnect_keeps_live_slots(2) [OF sd i']
            have ne: "i \<noteq> index (cs ! k)" and lt: "i < length (slots sgk)"
              and same_slot: "slots sgk' ! i = slots sgk ! i" by simp_all
            from same_slot i'(2) have nth: "slots sgk ! i \<noteq> None" by simp
            from slots_owned_owner [OF own sgk lt nth] obtain m where m: "m < length cs"
              "connected (cs ! m) h" "weak_disconnector (cs ! m) = shared_disconnector sgk"
              "index (cs ! m) = i" .
            with ne have "m \<noteq> k" by auto
            from keep [OF m(1) this m(2,3,4)] signal_disconnect_keeps_live_slots(5) [OF sd] eq
            show ?thesis by simp
          next
            case other: False
            with s h' have sb: "signals h b = Some s" by simp
            from slots_owned_owner [OF own sb i] obtain m where m: "m < length cs"
              "connected (cs ! m) h" "weak_disconnector (cs ! m) = shared_disconnector s"
              "index (cs ! m) = i" .
            have "m \<noteq> k"
            proof
              assume "m = k"
              with m(3) wk have "shared_disconnector s = Some cbk" by simp
              from heap_ok_owner(3) [OF ok sb this] other show False by simp
            qed
            from keep [OF m(1) this m(2,3,4)] show ?thesis .
          qed
        qed
      qed
    qed
  next
    case (Move_assign k j)
    with plain show ?thesis by simp
  next
    case (Destroy a)
    with step have des: "signal_destroy a h = Inr h'" and cs': "cs' = cs"
      by (auto split: sum.splits)
    show ?thesis
    proof (cases "signals h a")
      case None
      with des show ?thesis by (simp add: signal_destroy_dead)
    next
      case (Some sg)
      with des signal_destroy_alive [OF ok Some] have h': "h' = destroyed a sg h" by simp
      show ?thesis
      proof (rule slots_ownedI)
        fix b s i
        assume s: "signals h' b = Some s" and i: "i < length (slots s)" "slots s ! i \<noteq> None"
        from s h' have ba: "b \<noteq> a" and sb: "signals h b = Some s"
          by (auto simp: destroyed_def split: if_splits)
        from slots_owned_owner [OF own sb i] obtain m where m: "m < length cs"
          "connected (cs ! m) h" "weak_disconnector (cs ! m) = shared_disconnector s"
          "index (cs ! m) = i" .
        from m(2) obtain cb where w: "weak_disconnector (cs ! m) = Some cb"
          and live: "\<not> expired (Some cb) h" by (auto simp: connected_iff)
        from w m(3) have sh: "shared_disconnector s = Some cb" by simp
        from heap_ok_owner(3) [OF ok sb sh] have pb: "pointee (blocks h ! cb) = b" .
        have "shared_disconnector sg \<noteq> Some cb"
        proof
          assume "shared_disconnector sg = Some cb"
          from heap_ok_owner(3) [OF ok Some this] pb ba show False by simp
        qed
        then have "blocks h' ! cb = blocks h ! cb"
          using h' by (cases "shared_disconnector sg") (auto simp: destroyed_def)
        with live h' have "\<not> expired (Some cb) h'"
          by (simp add: expired_Some destroyed_blocks(1))
        with w have "connected (cs ! m) h'" by (simp add: connected_def)
        with m cs'
        show "\<exists>k<length cs'. connected (cs' ! k) h' \<and>
                weak_disconnector (cs' ! k) = shared_disconnector s \<and> index (cs' ! k) = i"
          by auto
      qed
    qed
  qed
qed

lemma plain_run_invariants:
  assumes "list_all plain_op xs" and "run_client xs st = Inr st'"
    and "client_ok st" and "indices_ok st" and "slots_owned st" and "slots_trimmed (snd st)"
  shows "client_ok st' \<and> indices_ok st' \<and> slots_owned st' \<and> slots_trimmed (snd st')"
  using assms
proof (induction xs arbitrary: st)
  case Nil
  then show ?case by simp
next
  case (Cons x xs)
  obtain cs h where st: "st = (cs, h)" by (cases st)
  from Cons.prems(1) have x: "plain_op x" and xs: "list_all plain_op xs" by simp_all
  from Cons.prems(2) obtain st1 where step1: "client_step x st = Inr st1"
    and rest: "run_client xs st1 = Inr st'"
    by (auto split: sum.splits)
  obtain cs1 h1 where st1: "st1 = (cs1, h1)" by (cases st1)
  from step1 st st1 have step: "client_step x (cs, h) = Inr (cs1, h1)" by simp
  from Cons.prems(3-6) st have inv: "client_ok (cs, h)" "indices_ok (cs, h)" "slots_owned (cs, h)"
    "slots_trimmed h" by simp_all
  from inv(1) have ok: "heap_ok h" by (simp add: client_ok_def)
  have "client_ok st1"
    using client_step_ok [OF inv(1) step] st1 by simp
  moreover have "indices_ok st1"
    using client_step_indices_ok [OF inv(1,2) plain_op_callable [OF x] step] st1 by simp
  moreover have "slots_owned st1"
    using slots_owned_step [OF inv(1,3) x step] st1 by simp
  moreover have "slots_trimmed (snd st1)"
    using slots_trimmed_step [OF ok inv(4) plain_op_callable [OF x] step] st1 by simp
  ultimately show ?case
    using Cons.IH [OF xs rest] by simp
qed

lemma slots_owned_initial: "slots_owned ([], empty_heap)"
  by (simp add: slots_owned_def empty_heap_def)

lemma slots_trimmed_initial: "slots_trimmed empty_heap"
  by (simp add: slots_trimmed_def empty_heap_def)

text \<open>
  Once every connection of a client that connects callables only (and overwrites no
  connection) is disconnected, every slot vector is empty.
\<close>

lemma all_disconnected_all_empty:
  fixes h :: "'f heap"
  assumes plain: "list_all plain_op xs" and run: "run_client xs ([], empty_heap) = Inr (cs, h)"
    and none: "\<And>k. k < length cs \<Longrightarrow> \<not> connected (cs ! k) h"
    and sg: "signals h a = Some sg"
  shows "slots sg = []"
proof (rule ccontr)
  assume ne: "slots sg \<noteq> []"
  have "slots_trimmed (snd (([], empty_heap) :: 'f client))" by (simp add: slots_trimmed_initial)
  from plain_run_invariants [OF plain run client_ok_initial indices_ok_initial
      slots_owned_initial this]
  have own: "slots_owned (cs, h)" and tr: "slots_trimmed h" by simp_all
  let ?i = "length (slots sg) - 1"
  from ne have i: "?i < length (slots sg)" by simp
  from slots_trimmedD [OF tr sg ne] ne have "slots sg ! ?i \<noteq> None"
    by (simp add: last_conv_nth)
  from slots_owned_owner [OF own sg i this] obtain k where "k < length cs" "connected (cs ! k) h" .
  with none show False by blast
qed

lemma run_client_append:
  "run_client (xs @ ys) st =
     (case run_client xs st of Inl e \<Rightarrow> Inl e | Inr st' \<Rightarrow> run_client ys st')"
  by (induction xs arbitrary: st) (simp_all split: sum.splits)

lemma connect_alive_returns:
  assumes "signals h a \<noteq> None"
  shows "\<exists>c h'. connect a slot h = Inr (c, h') \<and> signals h' a \<noteq> None"
proof -
  from assms obtain sg where sg: "signals h a = Some sg" by blast
  show ?thesis
  proof (cases "shared_disconnector sg")
    case None
    from connect_first [OF sg None, of slot] show ?thesis by simp
  next
    case (Some cb)
    from connect_later [OF sg Some, of slot] show ?thesis by simp
  qed
qed

lemma connects_run:
  assumes "signals h a \<noteq> None"
  shows "\<exists>cs' h'. run_client (map (\<lambda>f. Connect a (Some f)) fs) (cs, h) = Inr (cs', h') \<and>
                  length cs' = length cs + length fs \<and> signals h' a \<noteq> None"
  using assms
proof (induction fs arbitrary: cs h)
  case Nil
  then show ?case by simp
next
  case (Cons f fs)
  from connect_alive_returns [OF Cons.prems, of "Some f"] obtain c h1
    where con: "connect a (Some f) h = Inr (c, h1)" and alive: "signals h1 a \<noteq> None" by blast
  from Cons.IH [OF alive, of "cs @ [c]"] obtain cs' h'
    where "run_client (map (\<lambda>f. Connect a (Some f)) fs) (cs @ [c], h1) = Inr (cs', h')"
      and "length cs' = length (cs @ [c]) + length fs" and "signals h' a \<noteq> None" by blast
  with con show ?case by simp
qed

lemma disconnect_returns:
  assumes inv: "client_ok (cs, h)" and idx: "indices_ok (cs, h)" and k: "k < length cs"
  shows "\<exists>h'. client_step (Disconnect k) (cs, h) =
                 Inr (cs[k := (cs ! k)\<lparr>weak_disconnector := None\<rparr>], h') \<and>
              blocks h' = blocks h \<and> (\<forall>a. signals h' a \<noteq> None \<longleftrightarrow> signals h a \<noteq> None)"
proof (cases "connected (cs ! k) h")
  case False
  then have "expired (weak_disconnector (cs ! k)) h" by (simp add: connected_def)
  from connection_disconnect_expired [OF this] k show ?thesis by simp
next
  case True
  from inv have ok: "heap_ok h" by (simp add: client_ok_def)
  from indices_ok_addr [OF idx k] True obtain cb sg
    where w: "weak_disconnector (cs ! k) = Some cb" and live: "\<not> expired (Some cb) h"
      and sg: "signals h (pointee (blocks h ! cb)) = Some sg"
      and inb: "index (cs ! k) < length (slots sg)"
    by (rule addressed_slot)
  from inb obtain sg' where "signal_disconnect (index (cs ! k)) sg = Inr sg'"
    by (simp add: signal_disconnect_def)
  with connection_disconnect_on_signal [OF ok w live sg] k sg show ?thesis by auto
qed

lemma disconnects_run:
  assumes "client_ok (cs, h)" and "indices_ok (cs, h)"
  shows "\<exists>cs' h'. run_client (map Disconnect p) (cs, h) = Inr (cs', h') \<and>
                  length cs' = length cs \<and>
                  (\<forall>a. signals h' a \<noteq> None \<longleftrightarrow> signals h a \<noteq> None) \<and>
                  (\<forall>k < length cs. k \<in> set p \<or> \<not> connected (cs ! k) h \<longrightarrow>
                       \<not> connected (cs' ! k) h')"
  using assms
proof (induction p arbitrary: cs h)
  case Nil
  then show ?case by simp
next
  case (Cons k0 p)
  show ?case
  proof (cases "k0 < length cs")
    case False
    then have step: "client_step (Disconnect k0) (cs, h) = Inr (cs, h)" by simp
    from Cons.IH [OF Cons.prems] obtain cs' h'
      where run: "run_client (map Disconnect p) (cs, h) = Inr (cs', h')"
        and len: "length cs' = length cs"
        and dom: "\<forall>a. signals h' a \<noteq> None \<longleftrightarrow> signals h a \<noteq> None"
        and off: "\<forall>k < length cs. k \<in> set p \<or> \<not> connected (cs ! k) h \<longrightarrow> \<not> connected (cs' ! k) h'"
      by blast
    from off False have "\<forall>k < length cs. k \<in> set (k0 # p) \<or> \<not> connected (cs ! k) h \<longrightarrow>
                           \<not> connected (cs' ! k) h'"
      by auto
    with step run len dom show ?thesis by simp
  next
    case True
    let ?cs1 = "cs[k0 := (cs ! k0)\<lparr>weak_disconnector := None\<rparr>]"
    from disconnect_returns [OF Cons.prems True] obtain h1
      where step: "client_step (Disconnect k0) (cs, h) = Inr (?cs1, h1)"
        and blocks: "blocks h1 = blocks h"
        and dom1: "\<forall>a. signals h1 a \<noteq> None \<longleftrightarrow> signals h a \<noteq> None" by blast
    have inv1: "client_ok (?cs1, h1)"
      using Cons.prems(1) step by (rule client_step_ok)
    have idx1: "indices_ok (?cs1, h1)"
      using client_step_indices_ok [OF Cons.prems _ step] by simp
    from Cons.IH [OF inv1 idx1] obtain cs' h'
      where run: "run_client (map Disconnect p) (?cs1, h1) = Inr (cs', h')"
        and len: "length cs' = length ?cs1"
        and dom: "\<forall>a. signals h' a \<noteq> None \<longleftrightarrow> signals h1 a \<noteq> None"
        and off: "\<forall>k < length ?cs1. k \<in> set p \<or> \<not> connected (?cs1 ! k) h1 \<longrightarrow>
                    \<not> connected (cs' ! k) h'"
      by blast
    have "\<not> connected (cs' ! k) h'"
      if k: "k < length cs" and hyp: "k \<in> set (k0 # p) \<or> \<not> connected (cs ! k) h" for k
    proof -
      have "k \<in> set p \<or> \<not> connected (?cs1 ! k) h1"
      proof (cases "k = k0")
        case True
        with k show ?thesis by simp
      next
        case False
        with hyp connected_blocks_cong [OF blocks, of "cs ! k"] show ?thesis by auto
      qed
      moreover have "k < length ?cs1" using k by simp
      ultimately show ?thesis using off by blast
    qed
    with step run len dom dom1 show ?thesis by simp
  qed
qed

lemma disconnect_all_callables:
  assumes all: "{0..<length fs} \<subseteq> set p"
  shows "\<exists>cs h sg. run_client (Construct a # map (\<lambda>f. Connect a (Some f)) fs @ map Disconnect p)
                     ([], empty_heap :: 'f heap) = Inr (cs, h) \<and>
                   signals h a = Some sg \<and> slots sg = []"
proof -
  let ?h0 = "signal_construct a (empty_heap :: 'f heap)"
  let ?connects = "map (\<lambda>f. Connect a (Some f)) fs"
  let ?ops = "Construct a # ?connects @ map Disconnect p"
  have step0: "client_step (Construct a) ([], empty_heap :: 'f heap) = Inr ([], ?h0)"
    by (simp add: empty_heap_def)
  have "signals ?h0 a \<noteq> None" by (simp add: signal_construct_def)
  from connects_run [OF this, of fs "[]"] obtain cs1 h1
    where run1: "run_client ?connects ([], ?h0) = Inr (cs1, h1)"
      and len1: "length cs1 = length fs" and alive1: "signals h1 a \<noteq> None" by auto
  have prefix: "run_client (Construct a # ?connects) ([], empty_heap) = Inr (cs1, h1)"
    using step0 run1 by simp
  have plain1: "list_all plain_op (Construct a # ?connects)"
    by (auto simp: list_all_iff)
  have "slots_trimmed (snd (([], empty_heap) :: 'f client))" by (simp add: slots_trimmed_initial)
  from plain_run_invariants [OF plain1 prefix client_ok_initial indices_ok_initial
      slots_owned_initial this]
  have inv1: "client_ok (cs1, h1)" and idx1: "indices_ok (cs1, h1)" by simp_all
  from disconnects_run [OF inv1 idx1, of p] obtain cs2 h2
    where run2: "run_client (map Disconnect p) (cs1, h1) = Inr (cs2, h2)"
      and len2: "length cs2 = length cs1"
      and dom: "\<forall>a. signals h2 a \<noteq> None \<longleftrightarrow> signals h1 a \<noteq> None"
      and off: "\<forall>k < length cs1. k \<in> set p \<or> \<not> connected (cs1 ! k) h1 \<longrightarrow>
                  \<not> connected (cs2 ! k) h2"
    by blast
  have "run_client ((Construct a # ?connects) @ map Disconnect p) ([], empty_heap) = Inr (cs2, h2)"
    using prefix run2 by (simp only: run_client_append) simp
  then have run: "run_client ?ops ([], empty_heap) = Inr (cs2, h2)" by simp
  have plain: "list_all plain_op ?ops"
    by (auto simp: list_all_iff)
  have none: "\<not> connected (cs2 ! k) h2" if "k < length cs2" for k
    using that off all len1 len2 by auto
  from dom alive1 obtain sg where sg: "signals h2 a = Some sg" by auto
  from all_disconnected_all_empty [OF plain run none sg] have "slots sg = []" by simp
  with run sg show ?thesis by blast
qed

section \<open>Connecting an empty callable\<close>

lemmas heap_eval =
  empty_heap_def signal_construct_def default_signal_def connect_def Let_def
  connection_disconnect_def weak_lock_def expired_def acquire_def release_def
  disconnector_call_def signal_disconnect_def signal_destroy_def shared_reset_def
  spin_wait_expired trim_tail.simps move_assign_def connected_def

text \<open>
  C6. The assertion of \<open>signal_type::disconnect\<close> can fail in a client that only uses
  the public interface: connect an empty callable, connect a callable, disconnect the second
  connection (the trimming loop removes both slots), then disconnect the first, which is
  still connected and whose index 0 is no longer in bounds.
\<close>

theorem disconnect_assertion_reachable:
  "run_client [Construct 0, Connect 0 None, Connect 0 (Some (1::nat)), Disconnect 1, Disconnect 0]
     ([], empty_heap) = Inl Assertion_failed"
  by (simp add: heap_eval)

text \<open>
  C1. The index of a connection that still reports \<open>connected()\<close> can come to address
  another callable: connect an empty callable (index 0), connect a callable, disconnect the
  second connection (both slots are trimmed), connect a third callable. It is stored at
  index 0, and both the first and the third connection are connected with index 0.
  Disconnecting the first one then empties the third one's slot, which stays connected.
\<close>

theorem live_connection_index_reused:
  "(case run_client [Construct 0, Connect 0 None, Connect 0 (Some (1::nat)), Disconnect 1,
                     Connect 0 (Some 2)] ([], empty_heap) of
      Inl e \<Rightarrow> False
    | Inr (cs, h) \<Rightarrow>
        connected (cs ! 0) h \<and> index (cs ! 0) = 0 \<and> connected (cs ! 2) h \<and> index (cs ! 2) = 0 \<and>
        map_option slots (signals h 0) = Some [Some 2])
 \<and> (case run_client [Construct 0, Connect 0 None, Connect 0 (Some (1::nat)), Disconnect 1,
                     Connect 0 (Some 2), Disconnect 0] ([], empty_heap) of
      Inl e \<Rightarrow> False
    | Inr (cs, h) \<Rightarrow> connected (cs ! 2) h \<and> map_option slots (signals h 0) = Some [])"
  by (simp add: heap_eval)

text \<open>
  C7. With an empty callable and a callable connected, disconnecting the first connection
  and then the second leaves an empty slot vector; disconnecting the second one first also
  empties the vector, but the first connection is still connected and its
  \<open>disconnect()\<close> then fails the assertion instead of returning.
\<close>

theorem disconnect_order_matters:
  "(case run_client [Construct 0, Connect 0 None, Connect 0 (Some (1::nat)), Disconnect 0, Disconnect 1]
           ([], empty_heap) of
      Inl e \<Rightarrow> False
    | Inr (cs, h) \<Rightarrow> map_option slots (signals h 0) = Some [])
 \<and> (case run_client [Construct 0, Connect 0 None, Connect 0 (Some (1::nat)), Disconnect 1]
           ([], empty_heap) of
      Inl e \<Rightarrow> False
    | Inr (cs, h) \<Rightarrow>
        map_option slots (signals h 0) = Some [] \<and> connected (cs ! 0) h \<and>
        isl (client_step (Disconnect 0) (cs, h)))"
  by (simp add: heap_eval)

section \<open>Concrete runs\<close>

theorem connected_weak_liveness_witness:
  "(case run_client [Construct 0, Connect 0 (Some (1::nat))] ([], empty_heap) of
      Inl e \<Rightarrow> False
    | Inr (cs, h) \<Rightarrow>
        length cs = 1
      \<and> (\<exists>c h'. connect 0 (Some 2) h = Inr (c, h') \<and> connected c h')
      \<and> (\<exists>c' h'. connection_disconnect (cs ! 0) h = Inr (c', h') \<and> \<not> connected c' h')
      \<and> (\<exists>h'. signal_destroy 0 h = Inr h' \<and> \<not> connected (cs ! 0) h')
      \<and> \<not> connected default_connection h
      \<and> connection_disconnect default_connection h = Inr (default_connection, h))
 \<and> (case run_client [Construct 0, Connect 0 (Some (1::nat)), Destroy 0] ([], empty_heap) of
      Inl e \<Rightarrow> False
    | Inr (cs, h) \<Rightarrow>
        length cs = 1 \<and> \<not> connected (cs ! 0) h
      \<and> (\<exists>cs' h'. run_client [Construct 0, Connect 0 (Some 3)] (cs, h) = Inr (cs', h')
            \<and> connected (cs' ! 1) h' \<and> \<not> connected (cs ! 0) h'))"
proof -
  let ?c = "\<lparr>weak_disconnector = Some 0, index = 0\<rparr>"
  let ?h = "\<lparr>signals = [0 \<mapsto> \<lparr>slots = [Some (1::nat)], disconnector_ptr = Some 0,
                                shared_disconnector = Some 0\<rparr>],
             blocks = [\<lparr>strong = 1, pointee = 0\<rparr>]\<rparr>"
  let ?h' = "\<lparr>signals = (Map.empty :: nat \<rightharpoonup> nat signal_type),
              blocks = [\<lparr>strong = 0, pointee = 0\<rparr>]\<rparr>"
  let ?c1 = "\<lparr>weak_disconnector = None, index = 0\<rparr>"
  let ?h1 = "\<lparr>signals = [0 \<mapsto> \<lparr>slots = [] :: nat slot_type list, disconnector_ptr = Some 0,
                                 shared_disconnector = Some 0\<rparr>],
              blocks = [\<lparr>strong = 1, pointee = 0\<rparr>]\<rparr>"
  let ?c2 = "\<lparr>weak_disconnector = Some 1, index = 0\<rparr>"
  let ?h2 = "\<lparr>signals = [0 \<mapsto> \<lparr>slots = [Some (3::nat)], disconnector_ptr = Some 0,
                                 shared_disconnector = Some 1\<rparr>],
              blocks = [\<lparr>strong = 0, pointee = 0\<rparr>, \<lparr>strong = 1, pointee = 0\<rparr>]\<rparr>"
  have run: "run_client [Construct 0, Connect 0 (Some (1::nat))] ([], empty_heap) = Inr ([?c], ?h)"
    by (simp add: heap_eval)
  have run': "run_client [Construct 0, Connect 0 (Some (1::nat)), Destroy 0] ([], empty_heap) =
                Inr ([?c], ?h')"
    by (simp add: heap_eval)
  note facts = connected_weak_liveness [OF run]
  note facts' = connected_weak_liveness [OF run']
  have alive: "signals ?h 0 \<noteq> None" by simp
  have len: "0 < length [?c]" by simp
  have dis: "connection_disconnect ([?c] ! 0) ?h = Inr (?c1, ?h1)"
    by (simp add: heap_eval)
  have des: "signal_destroy 0 ?h = Inr ?h'"
    by (simp add: heap_eval)
  have run2: "run_client [Construct 0, Connect 0 (Some 3)] ([?c], ?h') = Inr ([?c, ?c2], ?h2)"
    by (simp add: heap_eval)
  have a: "\<exists>c h'. connect 0 (Some 2) ?h = Inr (c, h') \<and> connected c h'"
    by (rule facts [THEN conjunct1, rule_format, OF alive])
  have "\<not> connected ?c1 ?h1"
    by (rule facts [THEN conjunct2, THEN conjunct1, rule_format, OF conjI [OF len dis]])
  with dis have b: "\<exists>c' h'. connection_disconnect ([?c] ! 0) ?h = Inr (c', h') \<and> \<not> connected c' h'"
    by (intro exI conjI)
  from facts [THEN conjunct2, THEN conjunct2, THEN conjunct1, rule_format, OF alive]
  obtain h' where des': "signal_destroy 0 ?h = Inr h'"
    and owned: "\<forall>k cb. k < length [?c] \<and> weak_disconnector ([?c] ! k) = Some cb \<and>
                  pointee (blocks ?h ! cb) = 0 \<longrightarrow> \<not> connected ([?c] ! k) h'"
    by (elim exE conjE)
  have "Inr h' = signal_destroy 0 ?h" using des' by (rule sym)
  also note des
  finally have h': "h' = ?h'" by simp
  have "0 < length [?c] \<and> weak_disconnector ([?c] ! 0) = Some 0 \<and> pointee (blocks ?h ! 0) = 0"
    by simp
  from owned [rule_format, OF this] have c: "\<not> connected ([?c] ! 0) ?h'"
    unfolding h' .
  from des c have c': "\<exists>h'. signal_destroy 0 ?h = Inr h' \<and> \<not> connected ([?c] ! 0) h'"
    by (intro exI conjI)
  have e1: "\<not> connected default_connection ?h"
    by (rule facts [THEN conjunct2, THEN conjunct2, THEN conjunct2, THEN conjunct2, THEN conjunct1])
  have e2: "connection_disconnect default_connection ?h = Inr (default_connection, ?h)"
    by (rule facts [THEN conjunct2, THEN conjunct2, THEN conjunct2, THEN conjunct2, THEN conjunct2])
  have d: "\<not> connected ([?c] ! 0) ?h2"
    by (rule facts' [THEN conjunct2, THEN conjunct2, THEN conjunct2, THEN conjunct1, rule_format,
          OF conjI [OF len conjI [OF c run2]]])
  have f: "connected ([?c, ?c2] ! 1) ?h2"
    by (simp add: heap_eval)
  from run2 f d
  have d': "\<exists>cs' h'. run_client [Construct 0, Connect 0 (Some 3)] ([?c], ?h') = Inr (cs', h')
            \<and> connected (cs' ! 1) h' \<and> \<not> connected ([?c] ! 0) h'"
    by (intro exI conjI)
  have l1: "length [?c] = 1" by simp
  show ?thesis
    unfolding run run' sum.case prod.case
    by (intro conjI l1 a b c' e1 e2 c d')
qed

theorem connection_disconnect_idempotent_witness:
  "connection_disconnect \<lparr>weak_disconnector = Some 0, index = 0\<rparr>
     \<lparr>signals = [0 \<mapsto> \<lparr>slots = [Some (1::nat)], disconnector_ptr = Some 0,
                          shared_disconnector = Some 0\<rparr>],
       blocks = [\<lparr>strong = 1, pointee = 0\<rparr>]\<rparr>
   = Inr (\<lparr>weak_disconnector = None, index = 0\<rparr>,
          \<lparr>signals = [0 \<mapsto> \<lparr>slots = [], disconnector_ptr = Some 0,
                               shared_disconnector = Some 0\<rparr>],
            blocks = [\<lparr>strong = 1, pointee = 0\<rparr>]\<rparr>)
 \<and> heap_ok \<lparr>signals = [0 \<mapsto> \<lparr>slots = [Some (1::nat)], disconnector_ptr = Some 0,
                                 shared_disconnector = Some 0\<rparr>],
              blocks = [\<lparr>strong = 1, pointee = 0\<rparr>]\<rparr>
 \<and> \<not> expired (Some 0)
       \<lparr>signals = [0 \<mapsto> \<lparr>slots = [Some (1::nat)], disconnector_ptr = Some 0,
                            shared_disconnector = Some 0\<rparr>],
         blocks = [\<lparr>strong = 1, pointee = 0\<rparr>]\<rparr>
 \<and> signal_disconnect 0 \<lparr>slots = [Some (1::nat)], disconnector_ptr = Some 0,
                          shared_disconnector = Some 0\<rparr>
     = Inr \<lparr>slots = [], disconnector_ptr = Some 0, shared_disconnector = Some 0\<rparr>
 \<and> connection_disconnect \<lparr>weak_disconnector = None, index = 0\<rparr>
       \<lparr>signals = [0 \<mapsto> \<lparr>slots = [] :: nat slot_type list, disconnector_ptr = Some 0,
                            shared_disconnector = Some 0\<rparr>],
         blocks = [\<lparr>strong = 1, pointee = 0\<rparr>]\<rparr>
   = Inr (\<lparr>weak_disconnector = None, index = 0\<rparr>,
          \<lparr>signals = [0 \<mapsto> \<lparr>slots = [], disconnector_ptr = Some 0,
                               shared_disconnector = Some 0\<rparr>],
            blocks = [\<lparr>strong = 1, pointee = 0\<rparr>]\<rparr>)
 \<and> expired (Some 0) \<lparr>signals = (Map.empty :: nat \<rightharpoonup> nat signal_type),
                       blocks = [\<lparr>strong = 0, pointee = 0\<rparr>]\<rparr>
 \<and> connection_disconnect \<lparr>weak_disconnector = Some 0, index = 0\<rparr>
       \<lparr>signals = (Map.empty :: nat \<rightharpoonup> nat signal_type), blocks = [\<lparr>strong = 0, pointee = 0\<rparr>]\<rparr>
   = Inr (\<lparr>weak_disconnector = None, index = 0\<rparr>,
          \<lparr>signals = Map.empty, blocks = [\<lparr>strong = 0, pointee = 0\<rparr>]\<rparr>)"
proof -
  let ?c = "\<lparr>weak_disconnector = Some 0, index = 0\<rparr>"
  let ?c1 = "\<lparr>weak_disconnector = None, index = 0\<rparr>"
  let ?sg = "\<lparr>slots = [Some (1::nat)], disconnector_ptr = Some 0, shared_disconnector = Some 0\<rparr>"
  let ?sg1 = "\<lparr>slots = [] :: nat slot_type list, disconnector_ptr = Some 0,
               shared_disconnector = Some 0\<rparr>"
  let ?h = "\<lparr>signals = [0 \<mapsto> ?sg], blocks = [\<lparr>strong = 1, pointee = 0\<rparr>]\<rparr>"
  let ?h1 = "\<lparr>signals = [0 \<mapsto> ?sg1], blocks = [\<lparr>strong = 1, pointee = 0\<rparr>]\<rparr>"
  let ?h' = "\<lparr>signals = (Map.empty :: nat \<rightharpoonup> nat signal_type),
              blocks = [\<lparr>strong = 0, pointee = 0\<rparr>]\<rparr>"
  have run: "run_client [Construct 0, Connect 0 (Some (1::nat))] ([], empty_heap) = Inr ([?c], ?h)"
    by (simp add: heap_eval)
  from run_client_ok [OF client_ok_initial run] have ok: "heap_ok ?h"
    by (simp add: client_ok_def)
  have live: "\<not> expired (Some 0) ?h"
    by (simp add: expired_Some)
  have first: "connection_disconnect ?c ?h = Inr (?c1, ?h1)"
    by (simp add: heap_eval)
  note facts = connection_disconnect_idempotent [OF first]
  have w: "weak_disconnector ?c = Some 0" by simp
  from facts [THEN conjunct2, THEN conjunct2, THEN conjunct2, THEN conjunct1, rule_format,
      OF conjI [OF ok conjI [OF w live]]]
  obtain sg sg' where "signals ?h (pointee (blocks ?h ! 0)) = Some sg"
    and sd: "signal_disconnect (index ?c) sg = Inr sg'"
    and "?h1 = ?h\<lparr>signals := (signals ?h)(pointee (blocks ?h ! 0) \<mapsto> sg')\<rparr>"
    by (elim exE conjE)
  then have "sg = ?sg" by simp
  with sd have "signal_disconnect 0 ?sg = Inr sg'" by simp
  moreover from this have "sg' = ?sg1" by (simp add: heap_eval)
  ultimately have sig: "signal_disconnect 0 ?sg = Inr ?sg1" by simp
  have again: "connection_disconnect ?c1 ?h1 = Inr (?c1, ?h1)"
    by (rule facts [THEN conjunct2, THEN conjunct2, THEN conjunct2, THEN conjunct2, THEN conjunct1])
  have dead: "expired (Some 0) ?h'"
    by (simp add: expired_Some)
  have second: "connection_disconnect ?c ?h' = Inr (?c1, ?h')"
    by (simp add: heap_eval)
  from dead have "expired (weak_disconnector ?c) ?h'" by simp
  from connection_disconnect_idempotent [OF second, THEN conjunct2, THEN conjunct1, rule_format, OF this]
  have "?h' = ?h'" .
  show ?thesis
    by (intro conjI first ok live sig again dead second)
qed

theorem moved_from_connection_disconnected_witness:
  "connected \<lparr>weak_disconnector = Some 0, index = 0\<rparr>
     \<lparr>signals = [0 \<mapsto> \<lparr>slots = [Some (1::nat)], disconnector_ptr = Some 0,
                          shared_disconnector = Some 0\<rparr>],
       blocks = [\<lparr>strong = 1, pointee = 0\<rparr>]\<rparr>
 \<and> (case move_construct \<lparr>weak_disconnector = Some 0, index = 0\<rparr> of
      (target, source) \<Rightarrow>
        connected target \<lparr>signals = [0 \<mapsto> \<lparr>slots = [Some (1::nat)], disconnector_ptr = Some 0,
                                             shared_disconnector = Some 0\<rparr>],
                          blocks = [\<lparr>strong = 1, pointee = 0\<rparr>]\<rparr>
      \<and> \<not> connected source \<lparr>signals = [0 \<mapsto> \<lparr>slots = [Some (1::nat)], disconnector_ptr = Some 0,
                                               shared_disconnector = Some 0\<rparr>],
                            blocks = [\<lparr>strong = 1, pointee = 0\<rparr>]\<rparr>
      \<and> index target = 0)
 \<and> (case move_assign default_connection \<lparr>weak_disconnector = Some 0, index = 0\<rparr> of
      (target, source) \<Rightarrow>
        connected target \<lparr>signals = [0 \<mapsto> \<lparr>slots = [Some (1::nat)], disconnector_ptr = Some 0,
                                             shared_disconnector = Some 0\<rparr>],
                          blocks = [\<lparr>strong = 1, pointee = 0\<rparr>]\<rparr>
      \<and> \<not> connected source \<lparr>signals = [0 \<mapsto> \<lparr>slots = [Some (1::nat)], disconnector_ptr = Some 0,
                                               shared_disconnector = Some 0\<rparr>],
                            blocks = [\<lparr>strong = 1, pointee = 0\<rparr>]\<rparr>
      \<and> index target = 0)"
proof -
  let ?c = "\<lparr>weak_disconnector = Some 0, index = 0\<rparr>"
  let ?h = "\<lparr>signals = [0 \<mapsto> \<lparr>slots = [Some (1::nat)], disconnector_ptr = Some 0,
                                shared_disconnector = Some 0\<rparr>],
             blocks = [\<lparr>strong = 1, pointee = 0\<rparr>]\<rparr>"
  have live: "connected ?c ?h"
    by (simp add: connected_def expired_Some)
  from moved_from_connection_disconnected [where c = ?c and h = ?h and this = default_connection] live
  show ?thesis
    by (simp add: move_construct_def move_assign_def)
qed

theorem scoped_connection_raii_witness:
  "scoped_destroy \<lparr>scoped_conn = \<lparr>weak_disconnector = Some 0, index = 0\<rparr>\<rparr>
     \<lparr>signals = [0 \<mapsto> \<lparr>slots = [Some (1::nat)], disconnector_ptr = Some 0,
                          shared_disconnector = Some 0\<rparr>],
       blocks = [\<lparr>strong = 1, pointee = 0\<rparr>]\<rparr>
   = Inr \<lparr>signals = [0 \<mapsto> \<lparr>slots = [], disconnector_ptr = Some 0,
                              shared_disconnector = Some 0\<rparr>],
           blocks = [\<lparr>strong = 1, pointee = 0\<rparr>]\<rparr>
 \<and> scoped_destroy (snd (scoped_release \<lparr>scoped_conn = \<lparr>weak_disconnector = Some 0, index = 0\<rparr>\<rparr>))
     \<lparr>signals = [0 \<mapsto> \<lparr>slots = [Some (1::nat)], disconnector_ptr = Some 0,
                          shared_disconnector = Some 0\<rparr>],
       blocks = [\<lparr>strong = 1, pointee = 0\<rparr>]\<rparr>
   = Inr \<lparr>signals = [0 \<mapsto> \<lparr>slots = [Some (1::nat)], disconnector_ptr = Some 0,
                              shared_disconnector = Some 0\<rparr>],
           blocks = [\<lparr>strong = 1, pointee = 0\<rparr>]\<rparr>
 \<and> fst (scoped_release \<lparr>scoped_conn = \<lparr>weak_disconnector = Some 0, index = 0\<rparr>\<rparr>)
   = \<lparr>weak_disconnector = Some 0, index = 0\<rparr>"
proof -
  let ?c = "\<lparr>weak_disconnector = Some 0, index = 0\<rparr>"
  let ?h = "\<lparr>signals = [0 \<mapsto> \<lparr>slots = [Some (1::nat)], disconnector_ptr = Some 0,
                                shared_disconnector = Some 0\<rparr>],
             blocks = [\<lparr>strong = 1, pointee = 0\<rparr>]\<rparr>"
  have dis: "connection_disconnect ?c ?h =
     Inr (\<lparr>weak_disconnector = None, index = 0\<rparr>,
          \<lparr>signals = [0 \<mapsto> \<lparr>slots = [], disconnector_ptr = Some 0,
                               shared_disconnector = Some 0\<rparr>],
            blocks = [\<lparr>strong = 1, pointee = 0\<rparr>]\<rparr>)"
    by (simp add: heap_eval)
  note facts = scoped_connection_raii [where sc = "\<lparr>scoped_conn = ?c\<rparr>" and h = ?h
      and c = default_connection]
  have d1: "scoped_destroy \<lparr>scoped_conn = ?c\<rparr> ?h =
     Inr \<lparr>signals = [0 \<mapsto> \<lparr>slots = [], disconnector_ptr = Some 0,
                               shared_disconnector = Some 0\<rparr>],
            blocks = [\<lparr>strong = 1, pointee = 0\<rparr>]\<rparr>"
    using facts [THEN conjunct1] dis by simp
  have d2: "scoped_destroy (snd (scoped_release \<lparr>scoped_conn = ?c\<rparr>)) ?h = Inr ?h"
    by (rule facts [THEN conjunct2, THEN conjunct2, THEN conjunct2, THEN conjunct1])
  have d3: "fst (scoped_release \<lparr>scoped_conn = ?c\<rparr>) = ?c"
    using facts [THEN conjunct2, THEN conjunct2, THEN conjunct1] by simp
  show ?thesis
    by (intro conjI d1 d2 d3)
qed

theorem trigger_calls_live_slots_in_order_witness:
  "trigger \<lparr>slots = [Some (\<lambda>a w. ((), w @ [(0::nat, a)])), None, Some (\<lambda>a w. ((), w @ [(2, a)]))],
            disconnector_ptr = None, shared_disconnector = None\<rparr> (7::nat) []
   = [(0, 7), (2, 7)]"
  using trigger_calls_live_slots_in_order
    [of "\<lparr>slots = [Some (\<lambda>a w. ((), w @ [(0::nat, a)])), None, Some (\<lambda>a w. ((), w @ [(2, a)]))],
            disconnector_ptr = None, shared_disconnector = None\<rparr>" "7::nat" "[]"]
  by (simp add: upt_rec)

end
